theory Spec2Isabelle
  imports Main "HOL-Library.AList" "HOL-Library.List_Lexorder" "HOL-Library.Char_ord"
begin

section \<open>Data model (\<^verbatim>\<open>snakecheck/trace.py\<close>)\<close>

text \<open>
  Generated values. Python's \<^verbatim>\<open>bool\<close> is a subclass of \<^verbatim>\<open>int\<close>
  (\<^verbatim>\<open>True == 1\<close>, \<^verbatim>\<open>isinstance(True, int)\<close>), so booleans are the integers 0 and 1.
  \<open>VOther\<close> stands for any object that is neither an integer, a string nor a list,
  named by an identity tag. HOL equality on \<open>pyval\<close> is Python's \<^verbatim>\<open>==\<close> on these
  kinds; floats, whose \<^verbatim>\<open>==\<close> crosses kinds, are outside the model.
\<close>

datatype pyval = VInt int | VStr string | VList "pyval list" | VOther nat

text \<open>A strategy is an opaque generator descriptor; only its identity is recorded.\<close>

type_synonym strategy = nat

text \<open>A Python \<^verbatim>\<open>dict\<close> is an association list with unique keys, in insertion order:
  \<^verbatim>\<open>d[k] = v\<close> is \<^const>\<open>AList.update\<close>, \<^verbatim>\<open>d.get(k, x)\<close> is \<open>dict_get\<close>.\<close>

type_synonym ('k, 'v) dict = "('k \<times> 'v) list"

definition dict_get :: "('k, 'v) dict \<Rightarrow> 'k \<Rightarrow> 'v \<Rightarrow> 'v" where
  "dict_get d k dflt = (case map_of d k of None \<Rightarrow> dflt | Some v \<Rightarrow> v)"

record trace_entry =
  entry_id :: string
  strategy :: strategy
  entry_value :: pyval
  dependencies :: "string list"
  metadata :: "(string, pyval) dict"

record generation_trace =
  entries :: "trace_entry list"
  variable_assignments :: "(string, string) dict"
  next_id :: nat

text \<open>\<^verbatim>\<open>f"t{n}"\<close>: the letter t followed by the decimal digits of \<open>n\<close>.\<close>

definition digit_char :: "nat \<Rightarrow> char" where
  "digit_char d = ''0123456789'' ! d"

fun str_nat :: "nat \<Rightarrow> string" where
  "str_nat n = (if n < 10 then [digit_char n] else str_nat (n div 10) @ [digit_char (n mod 10)])"

declare str_nat.simps [simp del]

definition trace_id_of :: "nat \<Rightarrow> string" where
  "trace_id_of n = CHR ''t'' # str_nat n"

definition empty_trace :: generation_trace where
  "empty_trace = \<lparr>entries = [], variable_assignments = [], next_id = 0\<rparr>"

text \<open>\<^verbatim>\<open>add_entry\<close> returns the new id and the updated trace;
  \<^verbatim>\<open>dependencies or []\<close> turns \<^verbatim>\<open>None\<close> into the empty list.\<close>

definition add_entry ::
  "generation_trace \<Rightarrow> strategy \<Rightarrow> pyval \<Rightarrow> string list option \<Rightarrow> string \<times> generation_trace" where
  "add_entry t strat v deps =
     (let trace_id = trace_id_of (next_id t);
          t1 = t\<lparr>next_id := next_id t + 1\<rparr>;
          entry = \<lparr>entry_id = trace_id, strategy = strat, entry_value = v,
                   dependencies = (case deps of None \<Rightarrow> [] | Some ds \<Rightarrow> ds), metadata = []\<rparr>
      in (trace_id, t1\<lparr>entries := entries t1 @ [entry]\<rparr>))"

definition assign_variable :: "generation_trace \<Rightarrow> string \<Rightarrow> string \<Rightarrow> generation_trace" where
  "assign_variable t var_name trace_id =
     t\<lparr>variable_assignments := AList.update var_name trace_id (variable_assignments t)\<rparr>"

text \<open>\<^verbatim>\<open>next((e for e in self.entries if e.id == node_id), None)\<close>\<close>

definition find_entry :: "generation_trace \<Rightarrow> string \<Rightarrow> trace_entry option" where
  "find_entry t node_id = find (\<lambda>e. entry_id e = node_id) (entries t)"

section \<open>Graph queries (\<^verbatim>\<open>GenerationTrace\<close>)\<close>

definition entry_ids :: "generation_trace \<Rightarrow> string set" where
  "entry_ids t = entry_id ` set (entries t)"

lemma find_entry_Some_id: "find_entry t x = Some e \<Longrightarrow> x \<in> entry_ids t"
  by (auto simp: find_entry_def entry_ids_def find_Some_iff)

lemma finite_entry_ids: "finite (entry_ids t)"
  by (simp add: entry_ids_def)

definition get_dependency_graph :: "generation_trace \<Rightarrow> (string, string set) dict" where
  "get_dependency_graph t =
     fold (\<lambda>entry graph. AList.update (entry_id entry) (set (dependencies entry)) graph) (entries t) []"

definition add_reverse :: "string \<Rightarrow> string \<Rightarrow> (string, string set) dict \<Rightarrow> (string, string set) dict" where
  "add_reverse eid dep_id reverse =
     (let reverse1 = (if map_of reverse dep_id = None then AList.update dep_id {} reverse else reverse)
      in AList.update dep_id (insert eid (dict_get reverse1 dep_id {})) reverse1)"

definition get_reverse_dependencies :: "generation_trace \<Rightarrow> (string, string set) dict" where
  "get_reverse_dependencies t =
     fold (\<lambda>entry reverse. fold (add_reverse (entry_id entry)) (dependencies entry) reverse) (entries t) []"

text \<open>
  Python iterates a \<^verbatim>\<open>set\<close> in an order the language leaves open (for strings it changes
  with the hash seed of the process). The order is a parameter of every function that loops over
  a set: \<open>order S\<close> is the sequence in which the elements of \<open>S\<close> are visited.
\<close>

type_synonym set_order = "string set \<Rightarrow> string list"

definition iterates :: "set_order \<Rightarrow> bool" where
  "iterates order \<longleftrightarrow> (\<forall>S. finite S \<longrightarrow> set (order S) = S \<and> distinct (order S))"

text \<open>
  The recursive functions below that carry a visited set terminate on every trace, cyclic or
  not; the interpreter's recursion limit is not modelled for them.
\<close>

text \<open>
  \<^verbatim>\<open>get_variable_dependencies\<close>. The inner function \<^verbatim>\<open>collect_deps\<close> adds to the set
  \<^verbatim>\<open>dependencies\<close> it shares with its recursive calls; here the set is passed in and
  returned. \<open>collect_deps_each\<close> is the loop \<^verbatim>\<open>for dep_id in entry.dependencies\<close>.
\<close>

function collect_deps :: "generation_trace \<Rightarrow> string \<Rightarrow> string set \<Rightarrow> string set"
  and collect_deps_each :: "generation_trace \<Rightarrow> string list \<Rightarrow> string set \<Rightarrow> string set" where
  "collect_deps t node_id deps =
     (if node_id \<in> deps then deps
      else (case find_entry t node_id of
              None \<Rightarrow> insert node_id deps
            | Some entry \<Rightarrow> collect_deps_each t (dependencies entry) (insert node_id deps)))"
| "collect_deps_each t [] deps = deps"
| "collect_deps_each t (dep_id # rest) deps =
     collect_deps_each t rest (collect_deps t dep_id deps)"
  by pat_completeness auto

lemma collect_deps_dom_mono:
  "collect_deps_collect_deps_each_dom (Inl (t, node_id, deps)) \<Longrightarrow> deps \<subseteq> collect_deps t node_id deps"
  "collect_deps_collect_deps_each_dom (Inr (t, ds, deps)) \<Longrightarrow> deps \<subseteq> collect_deps_each t ds deps"
proof (induction t node_id deps and t ds deps rule: collect_deps_collect_deps_each.pinduct)
  case (1 t node_id deps)
  then show ?case
    by (auto simp: collect_deps.psimps split: option.splits)
next
  case (2 t deps)
  then show ?case by (simp add: collect_deps_each.psimps)
next
  case (3 t dep_id rest deps)
  then show ?case by (auto simp: collect_deps_each.psimps)
qed

lemma collect_deps_card_insert:
  "find_entry t node_id = Some entry \<Longrightarrow> node_id \<notin> deps \<Longrightarrow>
   card (entry_ids t - insert node_id deps) < card (entry_ids t - deps)"
proof -
  assume "find_entry t node_id = Some entry" "node_id \<notin> deps"
  then have "node_id \<in> entry_ids t - deps" by (simp add: find_entry_Some_id)
  then show ?thesis
    by (intro psubset_card_mono) (auto simp: finite_entry_ids)
qed

lemma collect_deps_card_mono:
  "deps \<subseteq> deps' \<Longrightarrow> card (entry_ids t - deps') \<le> card (entry_ids t - deps)"
  by (intro card_mono) (auto simp: finite_entry_ids)

termination collect_deps
  apply (relation "inv_image (less_than <*lex*> less_than)
    (\<lambda>x. case x of Inl (t, node_id, deps) \<Rightarrow> (card (entry_ids t - deps), 0)
               | Inr (t, ds, deps) \<Rightarrow> (card (entry_ids t - deps), Suc (length ds)))")
  subgoal by (intro wf_inv_image wf_lex_prod wf_less_than)
  subgoal by (simp add: collect_deps_card_insert)
  subgoal by simp
  subgoal for t dep_id rest deps
    using collect_deps_card_mono [OF collect_deps_dom_mono(1), of t dep_id deps t] by auto
  done

declare collect_deps.simps [simp del]

definition get_variable_dependencies :: "generation_trace \<Rightarrow> string \<Rightarrow> string set" where
  "get_variable_dependencies t var_name =
     (case map_of (variable_assignments t) var_name of
        None \<Rightarrow> {}
      | Some trace_id \<Rightarrow> collect_deps t trace_id {})"

text \<open>
  \<^verbatim>\<open>get_connected_components\<close>. The inner function \<^verbatim>\<open>dfs\<close> adds to the sets
  \<^verbatim>\<open>visited\<close> and \<^verbatim>\<open>component\<close>; here the pair of them is passed in and returned.
  \<open>dfs_each\<close> is either of its two loops, and \<open>components_loop\<close> the loop over the entries.
\<close>

function dfs :: "generation_trace \<Rightarrow> set_order \<Rightarrow> string \<Rightarrow> string set \<times> string set \<Rightarrow> string set \<times> string set"
  and dfs_each :: "generation_trace \<Rightarrow> set_order \<Rightarrow> string list \<Rightarrow> string set \<times> string set \<Rightarrow> string set \<times> string set" where
  "dfs t order node_id (visited, component) =
     (if node_id \<in> visited then (visited, component)
      else (case find_entry t node_id of
              None \<Rightarrow> (insert node_id visited, insert node_id component)
            | Some entry \<Rightarrow>
                dfs_each t order (order (dict_get (get_reverse_dependencies t) node_id {}))
                  (dfs_each t order (dependencies entry)
                     (insert node_id visited, insert node_id component))))"
| "dfs_each t order [] s = s"
| "dfs_each t order (x # xs) s = dfs_each t order xs (dfs t order x s)"
  by pat_completeness auto

lemma dfs_dom_mono:
  "dfs_dfs_each_dom (Inl (t, order, node_id, s)) \<Longrightarrow> fst s \<subseteq> fst (dfs t order node_id s)"
  "dfs_dfs_each_dom (Inr (t, order, xs, s)) \<Longrightarrow> fst s \<subseteq> fst (dfs_each t order xs s)"
proof (induction t order node_id s and t order xs s rule: dfs_dfs_each.pinduct)
  case (1 t order node_id visited component)
  show ?case
  proof (cases "node_id \<in> visited")
    case True
    with "1.hyps" show ?thesis by (simp add: dfs.psimps)
  next
    case False
    show ?thesis
    proof (cases "find_entry t node_id")
      case None
      with False "1.hyps" show ?thesis by (auto simp: dfs.psimps)
    next
      case (Some entry)
      let ?s1 = "dfs_each t order (dependencies entry) (insert node_id visited, insert node_id component)"
      have a: "insert node_id visited \<subseteq> fst ?s1"
        using "1.IH"(1) [OF False Some] by simp
      have b: "fst ?s1 \<subseteq> fst (dfs_each t order (order (dict_get (get_reverse_dependencies t) node_id {})) ?s1)"
        by (rule "1.IH"(2) [OF False Some])
      have "dfs t order node_id (visited, component) =
            dfs_each t order (order (dict_get (get_reverse_dependencies t) node_id {})) ?s1"
        using False Some "1.hyps" by (simp add: dfs.psimps)
      with a b show ?thesis by auto
    qed
  qed
next
  case (2 t order s)
  then show ?case by (simp add: dfs_each.psimps)
next
  case (3 t order x xs s)
  then show ?case by (auto simp: dfs_each.psimps)
qed

termination dfs
  apply (relation "inv_image (less_than <*lex*> less_than)
    (\<lambda>x. case x of Inl (t, order, node_id, s) \<Rightarrow> (card (entry_ids t - fst s), 0)
               | Inr (t, order, xs, s) \<Rightarrow> (card (entry_ids t - fst s), Suc (length xs)))")
  subgoal by (intro wf_inv_image wf_lex_prod wf_less_than)
  subgoal by (simp add: collect_deps_card_insert)
  subgoal for t order node_id visited component entry
    using collect_deps_card_mono [OF dfs_dom_mono(2), of t order "dependencies entry" "(insert node_id visited, insert node_id component)" t]
      collect_deps_card_insert [of t node_id entry visited]
    by auto
  subgoal by simp
  subgoal for t order x xs s
    using collect_deps_card_mono [OF dfs_dom_mono(1), of t order x s t] by auto
  done

declare dfs.simps [simp del]

fun components_loop ::
  "generation_trace \<Rightarrow> set_order \<Rightarrow> trace_entry list \<Rightarrow> string set \<Rightarrow> string set list \<Rightarrow> string set list" where
  "components_loop t order [] visited components = components"
| "components_loop t order (entry # rest) visited components =
     (if entry_id entry \<notin> visited then
        (let (visited1, component) = dfs t order (entry_id entry) (visited, {})
         in components_loop t order rest visited1 (components @ [component]))
      else components_loop t order rest visited components)"

definition get_connected_components :: "set_order \<Rightarrow> generation_trace \<Rightarrow> string set list" where
  "get_connected_components order t = components_loop t order (entries t) {} []"

text \<open>The edges \<^verbatim>\<open>dfs\<close> follows from an id: to the dependencies of the first entry that
  carries it, and to its reverse dependencies.\<close>

definition component_edges :: "generation_trace \<Rightarrow> set_order \<Rightarrow> (string \<times> string) set" where
  "component_edges t order =
     {(x, y). \<exists>e. find_entry t x = Some e \<and>
        (y \<in> set (dependencies e) \<or> y \<in> set (order (dict_get (get_reverse_dependencies t) x {})))}"

text \<open>The undirected view of the dependency graph, and the condition that every dependency
  id is the id of an entry.\<close>

definition undirected_edges :: "generation_trace \<Rightarrow> (string \<times> string) set" where
  "undirected_edges t =
     {(x, y). y \<in> dict_get (get_dependency_graph t) x {} \<or> x \<in> dict_get (get_dependency_graph t) y {}}"

definition dependencies_closed :: "generation_trace \<Rightarrow> bool" where
  "dependencies_closed t \<longleftrightarrow> (\<forall>e \<in> set (entries t). set (dependencies e) \<subseteq> entry_ids t)"

text \<open>
  \<^verbatim>\<open>get_dependent_variables\<close>. The inner function \<^verbatim>\<open>collect_dependents\<close> keeps no
  visited set, so its recursion is bounded by fuel (the interpreter's recursion limit): \<open>None\<close>
  is a \<^verbatim>\<open>RecursionError\<close>. \<open>each_dependent\<close> is the loop over the reverse dependencies
  and \<open>each_variable\<close> the loop over \<^verbatim>\<open>variable_assignments.items()\<close>; the recursive call
  stands inside the test \<^verbatim>\<open>tid == dep_id\<close>, as in the source.
\<close>

fun collect_dependents :: "nat \<Rightarrow> generation_trace \<Rightarrow> set_order \<Rightarrow> string \<Rightarrow> string set \<Rightarrow> string set option"
  and each_dependent :: "nat \<Rightarrow> generation_trace \<Rightarrow> set_order \<Rightarrow> string list \<Rightarrow> string set \<Rightarrow> string set option"
  and each_variable :: "nat \<Rightarrow> generation_trace \<Rightarrow> set_order \<Rightarrow> string \<Rightarrow> (string \<times> string) list \<Rightarrow> string set \<Rightarrow> string set option" where
  "collect_dependents 0 t order node_id dependent_vars = None"
| "collect_dependents (Suc fuel) t order node_id dependent_vars =
     each_dependent fuel t order (order (dict_get (get_reverse_dependencies t) node_id {})) dependent_vars"
| "each_dependent fuel t order [] dependent_vars = Some dependent_vars"
| "each_dependent fuel t order (dep_id # rest) dependent_vars =
     (case each_variable fuel t order dep_id (variable_assignments t) dependent_vars of
        None \<Rightarrow> None
      | Some vars1 \<Rightarrow> each_dependent fuel t order rest vars1)"
| "each_variable fuel t order dep_id [] dependent_vars = Some dependent_vars"
| "each_variable fuel t order dep_id ((var, tid) # items) dependent_vars =
     (if tid = dep_id then
        (case collect_dependents fuel t order dep_id (insert var dependent_vars) of
           None \<Rightarrow> None
         | Some vars1 \<Rightarrow> each_variable fuel t order dep_id items vars1)
      else each_variable fuel t order dep_id items dependent_vars)"

definition get_dependent_variables :: "nat \<Rightarrow> set_order \<Rightarrow> generation_trace \<Rightarrow> string \<Rightarrow> string set option" where
  "get_dependent_variables fuel order t var_name =
     (case map_of (variable_assignments t) var_name of
        None \<Rightarrow> Some {}
      | Some trace_id \<Rightarrow> collect_dependents fuel t order trace_id {})"

text \<open>The result in the words of the specification: the names bound to the ids in the
  transitive closure of the reverse dependency graph from the id bound to the name.\<close>

definition reverse_edges :: "generation_trace \<Rightarrow> (string \<times> string) set" where
  "reverse_edges t = {(x, y). y \<in> dict_get (get_reverse_dependencies t) x {}}"

definition spec_dependent_variables :: "generation_trace \<Rightarrow> string \<Rightarrow> string set" where
  "spec_dependent_variables t var_name =
     (case map_of (variable_assignments t) var_name of
        None \<Rightarrow> {}
      | Some trace_id \<Rightarrow>
          {var. \<exists>x. (trace_id, x) \<in> (reverse_edges t)\<^sup>+ \<and> (var, x) \<in> set (variable_assignments t)})"

section \<open>The draw recorder (\<^verbatim>\<open>TraceableDrawFn\<close>)\<close>

record draw_fn =
  trace :: generation_trace
  current_dependencies :: "string list"
  dependency_stack :: "string list list"

definition create_traceable_draw :: draw_fn where
  "create_traceable_draw =
     \<lparr>trace = empty_trace, current_dependencies = [], dependency_stack = []\<rparr>"

text \<open>\<^verbatim>\<open>__call__\<close>: the value produced by \<^verbatim>\<open>strategy.generate()\<close> is an argument,
  since generation is random.\<close>

definition draw :: "draw_fn \<Rightarrow> strategy \<Rightarrow> pyval \<Rightarrow> draw_fn" where
  "draw d strat v =
     (let (trace_id, t1) = add_entry (trace d) strat v (Some (current_dependencies d))
      in d\<lparr>trace := t1, current_dependencies := current_dependencies d @ [trace_id]\<rparr>)"

definition push_dependencies :: "draw_fn \<Rightarrow> draw_fn" where
  "push_dependencies d = d\<lparr>dependency_stack := dependency_stack d @ [current_dependencies d]\<rparr>"

definition pop_dependencies :: "draw_fn \<Rightarrow> draw_fn" where
  "pop_dependencies d =
     (if dependency_stack d \<noteq> []
      then d\<lparr>current_dependencies := last (dependency_stack d),
              dependency_stack := butlast (dependency_stack d)\<rparr>
      else d)"

text \<open>\<^verbatim>\<open>record_assignment\<close>: scan the entries newest first, bind at the first equal
  value and stop.\<close>

definition record_assignment :: "draw_fn \<Rightarrow> string \<Rightarrow> pyval \<Rightarrow> draw_fn" where
  "record_assignment d var_name v =
     (case find (\<lambda>e. entry_value e = v) (rev (entries (trace d))) of
        None \<Rightarrow> d
      | Some e \<Rightarrow> d\<lparr>trace := assign_variable (trace d) var_name (entry_id e)\<rparr>)"

text \<open>A trace built only through a draw function: a sequence of draws, scope pushes and
  pops, and recorded assignments, applied to a fresh draw function
  (\<^verbatim>\<open>with_dependencies\<close>, which injects a dependency list, is left out).\<close>

datatype draw_op = Draw strategy pyval | Push | Pop | Record string pyval

fun apply_op :: "draw_fn \<Rightarrow> draw_op \<Rightarrow> draw_fn" where
  "apply_op d (Draw strat v) = draw d strat v"
| "apply_op d Push = push_dependencies d"
| "apply_op d Pop = pop_dependencies d"
| "apply_op d (Record var_name v) = record_assignment d var_name v"

definition run_ops :: "draw_op list \<Rightarrow> draw_fn" where
  "run_ops ops = foldl apply_op create_traceable_draw ops"

text \<open>The ids handed out before the counter reached \<open>n\<close>, and the invariant of a draw
  function.\<close>

definition earlier_ids :: "nat \<Rightarrow> string set" where
  "earlier_ids n = trace_id_of ` {..<n}"

definition draw_inv :: "draw_fn \<Rightarrow> bool" where
  "draw_inv d \<longleftrightarrow>
     map entry_id (entries (trace d)) = map trace_id_of [0..<next_id (trace d)] \<and>
     (\<forall>i < length (entries (trace d)). set (dependencies (entries (trace d) ! i)) \<subseteq> earlier_ids i) \<and>
     set (current_dependencies d) \<subseteq> earlier_ids (next_id (trace d)) \<and>
     (\<forall>s \<in> set (dependency_stack d). set s \<subseteq> earlier_ids (next_id (trace d)))"

section \<open>The shrinker (\<^verbatim>\<open>snakecheck/shrinking.py\<close>)\<close>

text \<open>The predicate is a black box: it returns a boolean or raises an exception of some
  class derived from \<^verbatim>\<open>Exception\<close>, named here by its class name. It is a function of the
  value it is given (it keeps no state between calls). What \<^verbatim>\<open>except Exception\<close> does not
  catch (\<^verbatim>\<open>KeyboardInterrupt\<close>, \<^verbatim>\<open>SystemExit\<close>) ends the run and is not an outcome here.\<close>

datatype py_exception = PyException string

type_synonym predicate = "(string, pyval) dict \<Rightarrow> py_exception + bool"

text \<open>\<^verbatim>\<open>{entry.id: entry.value for entry in trace.entries}\<close>\<close>

definition reconstruct_value :: "generation_trace \<Rightarrow> (string, pyval) dict" where
  "reconstruct_value t =
     fold (\<lambda>e m. AList.update (entry_id e) (entry_value e) m) (entries t) []"

definition test_trace :: "generation_trace \<Rightarrow> predicate \<Rightarrow> bool" where
  "test_trace t test_func =
     (case test_func (reconstruct_value t) of
        Inr _ \<Rightarrow> False
      | Inl _ \<Rightarrow> True)"

definition try_shrink_int :: "int \<Rightarrow> int" where
  "try_shrink_int v =
     (if v > 0 then
        (let shrunk_value = max 0 (v div 2) in
         if shrunk_value \<noteq> v then shrunk_value else v)
      else if v < 0 then
        (let shrunk_value = v div 2 in
         if shrunk_value \<noteq> v then shrunk_value else v)
      else v)"

record shrinker =
  sh_trace :: generation_trace
  dependency_graph :: "(string, string set) dict"
  reverse_dependencies :: "(string, string set) dict"

definition make_shrinker :: "generation_trace \<Rightarrow> shrinker" where
  "make_shrinker t =
     \<lparr>sh_trace = t, dependency_graph = get_dependency_graph t,
      reverse_dependencies = get_reverse_dependencies t\<rparr>"

text \<open>
  \<^verbatim>\<open>get_depth\<close> inside \<^verbatim>\<open>_sort_by_dependency_depth\<close>. The set \<^verbatim>\<open>visited\<close> is created
  once per entry and handed on to every recursive call, which adds to it; here it is passed in
  and returned. \<open>get_depth_each\<close> is the generator
  \<^verbatim>\<open>get_depth(dep, visited) for dep in deps\<close>, whose maximum is taken; it is never empty there
  when the order enumerates the set.
\<close>

function get_depth :: "(string, string set) dict \<Rightarrow> set_order \<Rightarrow> string \<Rightarrow> string set \<Rightarrow> nat \<times> string set"
  and get_depth_each :: "(string, string set) dict \<Rightarrow> set_order \<Rightarrow> string list \<Rightarrow> string set \<Rightarrow> nat list \<times> string set" where
  "get_depth graph order eid visited =
     (if eid \<in> visited then (0, visited)
      else if dict_get graph eid {} = {} then (0, insert eid visited)
      else (case get_depth_each graph order (order (dict_get graph eid {})) (insert eid visited) of
              (depths, visited1) \<Rightarrow> (1 + Max (set depths), visited1)))"
| "get_depth_each graph order [] visited = ([], visited)"
| "get_depth_each graph order (dep # rest) visited =
     (case get_depth graph order dep visited of
        (depth, visited1) \<Rightarrow>
          (case get_depth_each graph order rest visited1 of
             (depths, visited2) \<Rightarrow> (depth # depths, visited2)))"
  by pat_completeness auto

lemma get_depth_dom_mono:
  "get_depth_get_depth_each_dom (Inl (graph, order, eid, visited)) \<Longrightarrow>
     visited \<subseteq> snd (get_depth graph order eid visited)"
  "get_depth_get_depth_each_dom (Inr (graph, order, ds, visited)) \<Longrightarrow>
     visited \<subseteq> snd (get_depth_each graph order ds visited)"
proof (induction graph order eid visited and graph order ds visited rule: get_depth_get_depth_each.pinduct)
  case (1 graph order eid visited)
  show ?case
  proof (cases "eid \<in> visited \<or> dict_get graph eid {} = {}")
    case True
    with "1.hyps" show ?thesis by (auto simp: get_depth.psimps)
  next
    case False
    then have "insert eid visited \<subseteq> snd (get_depth_each graph order (order (dict_get graph eid {})) (insert eid visited))"
      using "1.IH" by blast
    with False "1.hyps" show ?thesis
      by (auto simp: get_depth.psimps split: prod.splits)
  qed
next
  case (2 graph order visited)
  then show ?case by (simp add: get_depth_each.psimps)
next
  case (3 graph order dep rest visited)
  obtain depth visited1 where a: "get_depth graph order dep visited = (depth, visited1)"
    by (cases "get_depth graph order dep visited")
  obtain depths visited2 where b: "get_depth_each graph order rest visited1 = (depths, visited2)"
    by (cases "get_depth_each graph order rest visited1")
  from "3.IH"(1) a have "visited \<subseteq> visited1" by simp
  moreover from "3.IH"(2) [OF a [symmetric]] b have "visited1 \<subseteq> visited2" by simp
  ultimately show ?case using "3.hyps" a b by (simp add: get_depth_each.psimps)
qed

lemma dict_get_nonempty_key: "dict_get graph k {} \<noteq> {} \<Longrightarrow> k \<in> fst ` set graph"
  by (auto simp: dict_get_def split: option.splits dest: map_of_SomeD intro: rev_image_eqI)

lemma graph_card_insert:
  "dict_get graph k {} \<noteq> {} \<Longrightarrow> k \<notin> visited \<Longrightarrow>
   card (fst ` set graph - insert k visited) < card (fst ` set graph - visited)"
proof -
  assume "dict_get graph k {} \<noteq> {}" "k \<notin> visited"
  then have "k \<in> fst ` set graph - visited" by (simp add: dict_get_nonempty_key)
  then show ?thesis by (intro psubset_card_mono) auto
qed

lemma graph_card_mono:
  "visited \<subseteq> visited' \<Longrightarrow> card (fst ` set graph - visited') \<le> card (fst ` set graph - visited)"
  by (intro card_mono) auto

termination get_depth
  apply (relation "inv_image (less_than <*lex*> less_than)
    (\<lambda>x. case x of Inl (graph, order, eid, visited) \<Rightarrow> (card (fst ` set graph - visited), 0)
               | Inr (graph, order, ds, visited) \<Rightarrow> (card (fst ` set graph - visited), Suc (length ds)))")
  subgoal by (intro wf_inv_image wf_lex_prod wf_less_than)
  subgoal by (simp add: graph_card_insert)
  subgoal by simp
  subgoal for graph order dep rest visited x y
    using graph_card_mono [OF get_depth_dom_mono(1), of graph order dep visited graph]
    by (auto dest: arg_cong [where f = snd])
  done

declare get_depth.simps [simp del]

text \<open>\<^verbatim>\<open>sorted\<close> is stable, as \<^const>\<open>sort_key\<close> is.\<close>

definition sort_by_dependency_depth :: "shrinker \<Rightarrow> set_order \<Rightarrow> trace_entry list \<Rightarrow> trace_entry list" where
  "sort_by_dependency_depth self order es =
     sort_key (\<lambda>e. fst (get_depth (dependency_graph self) order (entry_id e) {})) es"

text \<open>The one exception the shrinker itself can raise:
  \<^verbatim>\<open>next(e for e in trace.entries if e.id == root_id)\<close> in \<^verbatim>\<open>_shrink_component\<close> has no
  default, and raises \<^verbatim>\<open>StopIteration\<close> when no entry carries the id.\<close>

datatype error = StopIteration

definition try_shrink_str :: "string \<Rightarrow> string" where
  "try_shrink_str v =
     (if length v > 1 then
        (let shrunk_value = take (length v div 2) v in
         if shrunk_value \<noteq> v then shrunk_value else v)
      else v)"

definition try_shrink_list :: "pyval list \<Rightarrow> pyval list" where
  "try_shrink_list v =
     (if length v > 1 then
        (let shrunk_value = take (length v div 2) v in
         if shrunk_value \<noteq> v then shrunk_value else v)
      else v)"

definition try_shrink_value :: "pyval \<Rightarrow> strategy \<Rightarrow> pyval" where
  "try_shrink_value v strat =
     (case v of
        VInt i \<Rightarrow> VInt (try_shrink_int i)
      | VStr s \<Rightarrow> VStr (try_shrink_str s)
      | VList l \<Rightarrow> VList (try_shrink_list l)
      | VOther x \<Rightarrow> v)"

text \<open>
  \<^verbatim>\<open>_create_modified_trace\<close> and \<^verbatim>\<open>_remove_entry\<close> work on a \<^verbatim>\<open>deepcopy\<close> of the trace;
  on values a copy is the value itself. \<open>set_first_value\<close> is the loop that updates the first
  entry with the given id and stops.
\<close>

fun set_first_value :: "string \<Rightarrow> pyval \<Rightarrow> trace_entry list \<Rightarrow> trace_entry list" where
  "set_first_value eid new_value [] = []"
| "set_first_value eid new_value (entry # rest) =
     (if entry_id entry = eid then entry\<lparr>entry_value := new_value\<rparr> # rest
      else entry # set_first_value eid new_value rest)"

definition create_modified_trace :: "generation_trace \<Rightarrow> string \<Rightarrow> pyval \<Rightarrow> generation_trace" where
  "create_modified_trace t eid new_value = t\<lparr>entries := set_first_value eid new_value (entries t)\<rparr>"

definition remove_entry :: "generation_trace \<Rightarrow> string \<Rightarrow> generation_trace option" where
  "remove_entry t eid =
     (let new_trace = t\<lparr>entries := filter (\<lambda>e. entry_id e \<noteq> eid) (entries t)\<rparr>;
          new_trace = new_trace\<lparr>variable_assignments :=
                        filter (\<lambda>(var, tid). tid \<noteq> eid) (variable_assignments new_trace)\<rparr>;
          new_trace = new_trace\<lparr>entries :=
                        map (\<lambda>entry. entry\<lparr>dependencies := filter (\<lambda>dep. dep \<noteq> eid) (dependencies entry)\<rparr>)
                          (entries new_trace)\<rparr>
      in Some new_trace)"

text \<open>
  The three phases. Each loop is the \<^verbatim>\<open>for\<close> loop of its phase; the messages printed on an
  accepted candidate are left out. \<^verbatim>\<open>shrunk_trace != trace\<close> compares the dataclasses field by
  field and the strategy objects, which define no equality, by identity: a copy with an entry
  never equals its original, so the test holds exactly when a candidate was accepted. On values
  an accepted candidate differs from the trace by the value of one entry, in every trace the
  library makes (lemma \<open>create_modified_trace_differs\<close>).
\<close>

fun individual_values_loop :: "generation_trace \<Rightarrow> predicate \<Rightarrow> trace_entry list \<Rightarrow> generation_trace" where
  "individual_values_loop t test_func [] = t"
| "individual_values_loop t test_func (entry # rest) =
     (let shrunk_value = try_shrink_value (entry_value entry) (strategy entry) in
      if shrunk_value \<noteq> entry_value entry then
        (let new_trace = create_modified_trace t (entry_id entry) shrunk_value in
         if test_trace new_trace test_func then new_trace
         else individual_values_loop t test_func rest)
      else individual_values_loop t test_func rest)"

definition shrink_individual_values ::
  "shrinker \<Rightarrow> set_order \<Rightarrow> generation_trace \<Rightarrow> predicate \<Rightarrow> generation_trace option" where
  "shrink_individual_values self order t test_func =
     (let sorted_entries = sort_by_dependency_depth self order (entries t);
          shrunk_trace = individual_values_loop t test_func sorted_entries
      in if shrunk_trace \<noteq> t then Some shrunk_trace else None)"

fun roots_loop :: "generation_trace \<Rightarrow> predicate \<Rightarrow> string list \<Rightarrow> error + generation_trace option" where
  "roots_loop t test_func [] = Inr None"
| "roots_loop t test_func (root_id # rest) =
     (case find_entry t root_id of
        None \<Rightarrow> Inl StopIteration
      | Some entry \<Rightarrow>
          (let shrunk_value = try_shrink_value (entry_value entry) (strategy entry) in
           if shrunk_value \<noteq> entry_value entry then
             (let new_trace = create_modified_trace t root_id shrunk_value in
              if test_trace new_trace test_func then Inr (Some new_trace)
              else roots_loop t test_func rest)
           else roots_loop t test_func rest))"

definition shrink_component ::
  "shrinker \<Rightarrow> set_order \<Rightarrow> generation_trace \<Rightarrow> string set \<Rightarrow> predicate \<Rightarrow> error + generation_trace option" where
  "shrink_component self order t component test_func =
     (let root_ids = filter (\<lambda>tid. dict_get (dependency_graph self) tid {} = {}) (order component)
      in if root_ids = [] then Inr None else roots_loop t test_func root_ids)"

fun chains_loop ::
  "shrinker \<Rightarrow> set_order \<Rightarrow> generation_trace \<Rightarrow> predicate \<Rightarrow> string set list \<Rightarrow> error + generation_trace option" where
  "chains_loop self order t test_func [] = Inr None"
| "chains_loop self order t test_func (component # rest) =
     (if card component > 1 then
        (case shrink_component self order t component test_func of
           Inl e \<Rightarrow> Inl e
         | Inr (Some shrunk_trace) \<Rightarrow> Inr (Some shrunk_trace)
         | Inr None \<Rightarrow> chains_loop self order t test_func rest)
      else chains_loop self order t test_func rest)"

definition shrink_dependency_chains ::
  "shrinker \<Rightarrow> set_order \<Rightarrow> generation_trace \<Rightarrow> predicate \<Rightarrow> error + generation_trace option" where
  "shrink_dependency_chains self order t test_func =
     chains_loop self order t test_func (get_connected_components order t)"

fun optional_loop :: "shrinker \<Rightarrow> generation_trace \<Rightarrow> predicate \<Rightarrow> trace_entry list \<Rightarrow> generation_trace option" where
  "optional_loop self t test_func [] = None"
| "optional_loop self t test_func (entry # rest) =
     (let dependents = dict_get (reverse_dependencies self) (entry_id entry) {} in
      if card dependents > 1 \<and> length (dependencies entry) \<le> 1 then
        (case remove_entry t (entry_id entry) of
           Some new_trace \<Rightarrow>
             if test_trace new_trace test_func then Some new_trace
             else optional_loop self t test_func rest
         | None \<Rightarrow> optional_loop self t test_func rest)
      else optional_loop self t test_func rest)"

definition shrink_optional_dependencies ::
  "shrinker \<Rightarrow> generation_trace \<Rightarrow> predicate \<Rightarrow> generation_trace option" where
  "shrink_optional_dependencies self t test_func = optional_loop self t test_func (entries t)"

definition shrink_failing_example ::
  "shrinker \<Rightarrow> set_order \<Rightarrow> predicate \<Rightarrow> error + ((string, pyval) dict \<times> generation_trace)" where
  "shrink_failing_example self order test_func =
     (let current_trace = sh_trace self;
          current_trace = (case shrink_individual_values self order current_trace test_func of
                             Some shrunk_trace \<Rightarrow> shrunk_trace | None \<Rightarrow> current_trace)
      in case shrink_dependency_chains self order current_trace test_func of
           Inl e \<Rightarrow> Inl e
         | Inr chained \<Rightarrow>
             (let current_trace = (case chained of Some shrunk_trace \<Rightarrow> shrunk_trace | None \<Rightarrow> current_trace);
                  current_trace = (case shrink_optional_dependencies self current_trace test_func of
                                     Some shrunk_trace \<Rightarrow> shrunk_trace | None \<Rightarrow> current_trace)
              in Inr (reconstruct_value current_trace, current_trace)))"

definition shrink_with_dataflow ::
  "set_order \<Rightarrow> generation_trace \<Rightarrow> predicate \<Rightarrow> error + ((string, pyval) dict \<times> generation_trace)" where
  "shrink_with_dataflow order t test_func = shrink_failing_example (make_shrinker t) order test_func"

text \<open>The depth in the words of the specification: 0 without dependencies, otherwise one more
  than the largest depth of a dependency (\<open>n\<close> bounds the length of the chains followed).\<close>

fun spec_depth :: "nat \<Rightarrow> (string, string set) dict \<Rightarrow> string \<Rightarrow> nat" where
  "spec_depth 0 graph x = 0"
| "spec_depth (Suc n) graph x =
     (let deps = dict_get graph x {} in
      if deps = {} then 0 else 1 + Max (spec_depth n graph ` deps))"

text \<open>The traces the library makes: the empty trace, and what \<^verbatim>\<open>add_entry\<close> (with any
  dependency list), \<^verbatim>\<open>assign_variable\<close>, a value substitution and an entry removal make of
  such a trace.\<close>

inductive built :: "generation_trace \<Rightarrow> bool" where
  built_empty: "built empty_trace"
| built_add: "built t \<Longrightarrow> built (snd (add_entry t strat v deps))"
| built_assign: "built t \<Longrightarrow> built (assign_variable t var_name trace_id)"
| built_modify: "built t \<Longrightarrow> built (create_modified_trace t eid v)"
| built_remove: "built t \<Longrightarrow> remove_entry t eid = Some t' \<Longrightarrow> built t'"

section \<open>The shrinker on a store of objects\<close>

text \<open>
  Traces and their entries are mutable objects, and the shrinker works on references to them. To
  state what a call leaves unchanged, the shrinker is modelled a second time over a store: a
  trace object holds the references of its entry objects, \<^verbatim>\<open>deepcopy\<close> allocates a new trace
  object and a new entry object for every entry, and an attribute assignment
  (\<^verbatim>\<open>entry.value = ...\<close>, \<^verbatim>\<open>new_trace.entries = ...\<close>, \<^verbatim>\<open>entry.dependencies = ...\<close>)
  overwrites the object at its reference. Lists and dicts are values: the shrinker never changes
  one in place. Every function takes the store and returns the new one; the queries that only
  read a trace are the functions above, applied to the trace read from the store.
\<close>

type_synonym addr = nat

record trace_obj =
  obj_entries :: "addr list"
  obj_variable_assignments :: "(string, string) dict"
  obj_next_id :: nat

record heap =
  entry_at :: "addr \<Rightarrow> trace_entry"
  trace_at :: "addr \<Rightarrow> trace_obj"
  next_addr :: addr

definition read_trace :: "heap \<Rightarrow> addr \<Rightarrow> generation_trace" where
  "read_trace h a =
     \<lparr>entries = map (entry_at h) (obj_entries (trace_at h a)),
      variable_assignments = obj_variable_assignments (trace_at h a),
      next_id = obj_next_id (trace_at h a)\<rparr>"

definition new_entry :: "heap \<Rightarrow> trace_entry \<Rightarrow> heap \<times> addr" where
  "new_entry h e = (h\<lparr>entry_at := (entry_at h)(next_addr h := e), next_addr := Suc (next_addr h)\<rparr>, next_addr h)"

definition new_trace_obj :: "heap \<Rightarrow> trace_obj \<Rightarrow> heap \<times> addr" where
  "new_trace_obj h t = (h\<lparr>trace_at := (trace_at h)(next_addr h := t), next_addr := Suc (next_addr h)\<rparr>, next_addr h)"

definition set_entry :: "heap \<Rightarrow> addr \<Rightarrow> trace_entry \<Rightarrow> heap" where
  "set_entry h x e = h\<lparr>entry_at := (entry_at h)(x := e)\<rparr>"

definition set_trace_obj :: "heap \<Rightarrow> addr \<Rightarrow> trace_obj \<Rightarrow> heap" where
  "set_trace_obj h a t = h\<lparr>trace_at := (trace_at h)(a := t)\<rparr>"

fun copy_entries :: "heap \<Rightarrow> addr list \<Rightarrow> heap \<times> addr list" where
  "copy_entries h [] = (h, [])"
| "copy_entries h (x # xs) =
     (let (h1, y) = new_entry h (entry_at h x);
          (h2, ys) = copy_entries h1 xs
      in (h2, y # ys))"

definition deepcopy :: "heap \<Rightarrow> addr \<Rightarrow> heap \<times> addr" where
  "deepcopy h a =
     (let (h1, ys) = copy_entries h (obj_entries (trace_at h a))
      in new_trace_obj h1 ((trace_at h a)\<lparr>obj_entries := ys\<rparr>))"

fun store_first_value :: "heap \<Rightarrow> string \<Rightarrow> pyval \<Rightarrow> addr list \<Rightarrow> heap" where
  "store_first_value h eid new_value [] = h"
| "store_first_value h eid new_value (x # xs) =
     (if entry_id (entry_at h x) = eid then set_entry h x ((entry_at h x)\<lparr>entry_value := new_value\<rparr>)
      else store_first_value h eid new_value xs)"

definition create_modified_trace_in :: "heap \<Rightarrow> addr \<Rightarrow> string \<Rightarrow> pyval \<Rightarrow> heap \<times> addr" where
  "create_modified_trace_in h a eid new_value =
     (let (h1, new_trace) = deepcopy h a
      in (store_first_value h1 eid new_value (obj_entries (trace_at h1 new_trace)), new_trace))"

definition remove_entry_in :: "heap \<Rightarrow> addr \<Rightarrow> string \<Rightarrow> heap \<times> addr option" where
  "remove_entry_in h a eid =
     (let (h1, new_trace) = deepcopy h a;
          kept = filter (\<lambda>x. entry_id (entry_at h1 x) \<noteq> eid) (obj_entries (trace_at h1 new_trace));
          h2 = set_trace_obj h1 new_trace ((trace_at h1 new_trace)\<lparr>obj_entries := kept\<rparr>);
          h3 = set_trace_obj h2 new_trace ((trace_at h2 new_trace)\<lparr>obj_variable_assignments :=
                 filter (\<lambda>(var, tid). tid \<noteq> eid) (obj_variable_assignments (trace_at h2 new_trace))\<rparr>);
          h4 = fold (\<lambda>x h. set_entry h x ((entry_at h x)\<lparr>dependencies :=
                 filter (\<lambda>dep. dep \<noteq> eid) (dependencies (entry_at h x))\<rparr>))
                 (obj_entries (trace_at h3 new_trace)) h3
      in (h4, Some new_trace))"

record shrinker_obj =
  trace_ref :: addr
  graph_of :: "(string, string set) dict"
  reverse_of :: "(string, string set) dict"

definition new_shrinker :: "heap \<Rightarrow> addr \<Rightarrow> shrinker_obj" where
  "new_shrinker h a =
     \<lparr>trace_ref = a, graph_of = get_dependency_graph (read_trace h a),
      reverse_of = get_reverse_dependencies (read_trace h a)\<rparr>"

fun individual_values_loop_in :: "heap \<Rightarrow> addr \<Rightarrow> predicate \<Rightarrow> addr list \<Rightarrow> heap \<times> addr" where
  "individual_values_loop_in h a test_func [] = (h, a)"
| "individual_values_loop_in h a test_func (x # rest) =
     (let entry = entry_at h x;
          shrunk_value = try_shrink_value (entry_value entry) (strategy entry) in
      if shrunk_value \<noteq> entry_value entry then
        (let (h1, new_trace) = create_modified_trace_in h a (entry_id entry) shrunk_value in
         if test_trace (read_trace h1 new_trace) test_func then (h1, new_trace)
         else individual_values_loop_in h1 a test_func rest)
      else individual_values_loop_in h a test_func rest)"

definition shrink_individual_values_in ::
  "shrinker_obj \<Rightarrow> set_order \<Rightarrow> heap \<Rightarrow> addr \<Rightarrow> predicate \<Rightarrow> heap \<times> addr option" where
  "shrink_individual_values_in self order h a test_func =
     (let sorted_entries =
            sort_key (\<lambda>x. fst (get_depth (graph_of self) order (entry_id (entry_at h x)) {}))
              (obj_entries (trace_at h a));
          (h1, shrunk_trace) = individual_values_loop_in h a test_func sorted_entries
      in (h1, if read_trace h1 shrunk_trace \<noteq> read_trace h1 a then Some shrunk_trace else None))"

fun roots_loop_in :: "heap \<Rightarrow> addr \<Rightarrow> predicate \<Rightarrow> string list \<Rightarrow> heap \<times> (error + addr option)" where
  "roots_loop_in h a test_func [] = (h, Inr None)"
| "roots_loop_in h a test_func (root_id # rest) =
     (case find (\<lambda>x. entry_id (entry_at h x) = root_id) (obj_entries (trace_at h a)) of
        None \<Rightarrow> (h, Inl StopIteration)
      | Some x \<Rightarrow>
          (let entry = entry_at h x;
               shrunk_value = try_shrink_value (entry_value entry) (strategy entry) in
           if shrunk_value \<noteq> entry_value entry then
             (let (h1, new_trace) = create_modified_trace_in h a root_id shrunk_value in
              if test_trace (read_trace h1 new_trace) test_func then (h1, Inr (Some new_trace))
              else roots_loop_in h1 a test_func rest)
           else roots_loop_in h a test_func rest))"

definition shrink_component_in ::
  "shrinker_obj \<Rightarrow> set_order \<Rightarrow> heap \<Rightarrow> addr \<Rightarrow> string set \<Rightarrow> predicate \<Rightarrow> heap \<times> (error + addr option)" where
  "shrink_component_in self order h a component test_func =
     (let root_ids = filter (\<lambda>tid. dict_get (graph_of self) tid {} = {}) (order component)
      in if root_ids = [] then (h, Inr None) else roots_loop_in h a test_func root_ids)"

fun chains_loop_in ::
  "shrinker_obj \<Rightarrow> set_order \<Rightarrow> heap \<Rightarrow> addr \<Rightarrow> predicate \<Rightarrow> string set list \<Rightarrow> heap \<times> (error + addr option)" where
  "chains_loop_in self order h a test_func [] = (h, Inr None)"
| "chains_loop_in self order h a test_func (component # rest) =
     (if card component > 1 then
        (case shrink_component_in self order h a component test_func of
           (h1, Inl e) \<Rightarrow> (h1, Inl e)
         | (h1, Inr (Some shrunk_trace)) \<Rightarrow> (h1, Inr (Some shrunk_trace))
         | (h1, Inr None) \<Rightarrow> chains_loop_in self order h1 a test_func rest)
      else chains_loop_in self order h a test_func rest)"

definition shrink_dependency_chains_in ::
  "shrinker_obj \<Rightarrow> set_order \<Rightarrow> heap \<Rightarrow> addr \<Rightarrow> predicate \<Rightarrow> heap \<times> (error + addr option)" where
  "shrink_dependency_chains_in self order h a test_func =
     chains_loop_in self order h a test_func (get_connected_components order (read_trace h a))"

fun optional_loop_in :: "shrinker_obj \<Rightarrow> heap \<Rightarrow> addr \<Rightarrow> predicate \<Rightarrow> addr list \<Rightarrow> heap \<times> addr option" where
  "optional_loop_in self h a test_func [] = (h, None)"
| "optional_loop_in self h a test_func (x # rest) =
     (let entry = entry_at h x;
          dependents = dict_get (reverse_of self) (entry_id entry) {} in
      if card dependents > 1 \<and> length (dependencies entry) \<le> 1 then
        (case remove_entry_in h a (entry_id entry) of
           (h1, Some new_trace) \<Rightarrow>
             if test_trace (read_trace h1 new_trace) test_func then (h1, Some new_trace)
             else optional_loop_in self h1 a test_func rest
         | (h1, None) \<Rightarrow> optional_loop_in self h1 a test_func rest)
      else optional_loop_in self h a test_func rest)"

definition shrink_optional_dependencies_in ::
  "shrinker_obj \<Rightarrow> heap \<Rightarrow> addr \<Rightarrow> predicate \<Rightarrow> heap \<times> addr option" where
  "shrink_optional_dependencies_in self h a test_func =
     optional_loop_in self h a test_func (obj_entries (trace_at h a))"

definition shrink_failing_example_in ::
  "shrinker_obj \<Rightarrow> set_order \<Rightarrow> heap \<Rightarrow> predicate \<Rightarrow> heap \<times> (error + ((string, pyval) dict \<times> addr))" where
  "shrink_failing_example_in self order h test_func =
     (let current_trace = trace_ref self;
          (h1, individual) = shrink_individual_values_in self order h current_trace test_func;
          current_trace = (case individual of Some shrunk_trace \<Rightarrow> shrunk_trace | None \<Rightarrow> current_trace)
      in case shrink_dependency_chains_in self order h1 current_trace test_func of
           (h2, Inl e) \<Rightarrow> (h2, Inl e)
         | (h2, Inr chained) \<Rightarrow>
             (let current_trace = (case chained of Some shrunk_trace \<Rightarrow> shrunk_trace | None \<Rightarrow> current_trace);
                  (h3, optional) = shrink_optional_dependencies_in self h2 current_trace test_func;
                  current_trace = (case optional of Some shrunk_trace \<Rightarrow> shrunk_trace | None \<Rightarrow> current_trace)
              in (h3, Inr (reconstruct_value (read_trace h3 current_trace), current_trace))))"

text \<open>\<open>frame h h'\<close>: every object of \<open>h\<close> is the same in \<open>h'\<close>. \<open>allocated h a\<close>: the trace
  object at \<open>a\<close> and its entry objects are objects of \<open>h\<close>.\<close>

definition frame :: "heap \<Rightarrow> heap \<Rightarrow> bool" where
  "frame h h' \<longleftrightarrow>
     next_addr h \<le> next_addr h' \<and>
     (\<forall>x < next_addr h. entry_at h' x = entry_at h x \<and> trace_at h' x = trace_at h x)"

definition allocated :: "heap \<Rightarrow> addr \<Rightarrow> bool" where
  "allocated h a \<longleftrightarrow> a < next_addr h \<and> (\<forall>x \<in> set (obj_entries (trace_at h a)). x < next_addr h)"

text \<open>Writing a trace into a store.\<close>

definition empty_heap :: heap where
  "empty_heap =
     \<lparr>entry_at = (\<lambda>x. \<lparr>entry_id = [], strategy = 0, entry_value = VOther 0, dependencies = [], metadata = []\<rparr>),
      trace_at = (\<lambda>x. \<lparr>obj_entries = [], obj_variable_assignments = [], obj_next_id = 0\<rparr>),
      next_addr = 0\<rparr>"

fun store_entries :: "heap \<Rightarrow> trace_entry list \<Rightarrow> heap \<times> addr list" where
  "store_entries h [] = (h, [])"
| "store_entries h (e # es) =
     (let (h1, y) = new_entry h e;
          (h2, ys) = store_entries h1 es
      in (h2, y # ys))"

definition store_trace :: "heap \<Rightarrow> generation_trace \<Rightarrow> heap \<times> addr" where
  "store_trace h t =
     (let (h1, ys) = store_entries h (entries t)
      in new_trace_obj h1
           \<lparr>obj_entries = ys, obj_variable_assignments = variable_assignments t, obj_next_id = next_id t\<rparr>)"

section \<open>Example traces\<close>

text \<open>Two draws of the value 0 by a fresh draw function.\<close>

definition two_zeros :: draw_fn where
  "two_zeros = draw (draw create_traceable_draw 0 (VInt 0)) 0 (VInt 0)"

text \<open>A draw, a nested scope with a second draw, and a third draw after the scope is closed.\<close>

definition nested_draws :: "draw_op list" where
  "nested_draws = [Draw 0 (VInt 80), Push, Draw 0 (VInt 70), Record ''y'' (VInt 70), Pop, Draw 1 (VStr ''ab'')]"

text \<open>Two draws inside a scope, and a third draw after the scope is closed.\<close>

definition two_scopes :: "draw_op list" where
  "two_scopes = [Push, Draw 0 (VInt 80), Draw 0 (VInt 70), Pop, Draw 1 (VStr ''ab'')]"

text \<open>Three entries in a chain made with explicit dependency lists, the middle one unnamed.\<close>

definition chain_trace :: generation_trace where
  "chain_trace =
     (let t1 = snd (add_entry empty_trace 0 (VInt 1) None);
          t2 = snd (add_entry t1 0 (VInt 2) (Some [''t0'']));
          t3 = snd (add_entry t2 0 (VInt 3) (Some [''t1'']))
      in assign_variable (assign_variable t3 ''a'' ''t0'') ''c'' ''t2'')"

text \<open>Two draws, two more inside a scope, and a fifth after the scope is closed.\<close>

definition scoped_draws :: "draw_op list" where
  "scoped_draws =
     [Draw 0 (VInt 1), Draw 0 (VInt 2), Push, Draw 0 (VInt 3), Draw 0 (VInt 4), Pop, Draw 0 (VInt 5)]"

definition diamond_trace :: generation_trace where
  "diamond_trace = trace (run_ops scoped_draws)"

text \<open>One entry whose dependency list names an id that no entry carries, and two predicates.\<close>

definition ghost_trace :: generation_trace where
  "ghost_trace = snd (add_entry empty_trace 0 (VInt 5) (Some [''ghost'']))"

definition always_raises :: predicate where
  "always_raises v = Inl (PyException ''AssertionError'')"

definition fails_when_large :: predicate where
  "fails_when_large v =
     (case (map_of v ''t0'', map_of v ''t1'') of
        (Some (VInt x), Some (VInt y)) \<Rightarrow>
          if x > 50 \<and> y > 60 then Inl (PyException ''AssertionError'') else Inr True
      | _ \<Rightarrow> Inl (PyException ''KeyError''))"

text \<open>The trace of \<open>nested_draws\<close> as an object of a store.\<close>

definition nested_heap :: heap where
  "nested_heap = fst (store_trace empty_heap (trace (run_ops nested_draws)))"

definition nested_ref :: addr where
  "nested_ref = snd (store_trace empty_heap (trace (run_ops nested_draws)))"

section \<open>The integer shrink transform\<close>

lemma try_shrink_int_abs: "\<bar>try_shrink_int v\<bar> \<le> \<bar>v\<bar>"
  unfolding try_shrink_int_def Let_def by (simp split: if_splits) linarith

lemma shrink_pos: "0 < v \<Longrightarrow> try_shrink_int v = v div 2"
  unfolding try_shrink_int_def Let_def by auto

lemma shrink_neg: "v < 0 \<Longrightarrow> try_shrink_int v = v div 2"
  unfolding try_shrink_int_def Let_def by auto

lemma shrink_zero: "try_shrink_int 0 = 0"
  unfolding try_shrink_int_def by simp

lemma shrink_m1: "try_shrink_int (- 1) = - 1"
  unfolding try_shrink_int_def by simp

lemma iter_zero: "(try_shrink_int ^^ m) 0 = 0"
  by (induction m) (simp_all add: shrink_zero)

lemma iter_m1: "(try_shrink_int ^^ m) (- 1) = - 1"
  by (induction m) (simp_all add: shrink_m1)

lemma reach_nonneg: "0 \<le> v \<Longrightarrow> \<exists>n. (try_shrink_int ^^ n) v = 0"
proof (induction "nat v" arbitrary: v rule: less_induct)
  case less
  show ?case
  proof (cases "v = 0")
    case True
    then have "(try_shrink_int ^^ 0) v = 0" by simp
    then show ?thesis by blast
  next
    case False
    with less.prems have pos: "0 < v" by simp
    then have "nat (v div 2) < nat v" by linarith
    moreover have "0 \<le> v div 2" using pos by simp
    ultimately obtain n where "(try_shrink_int ^^ n) (v div 2) = 0"
      using less.hyps by blast
    then have "(try_shrink_int ^^ Suc n) v = 0"
      by (simp add: funpow_swap1 shrink_pos [OF pos])
    then show ?thesis by blast
  qed
qed

lemma reach_neg: "v < 0 \<Longrightarrow> \<exists>n. (try_shrink_int ^^ n) v = - 1"
proof (induction "nat (- v)" arbitrary: v rule: less_induct)
  case less
  show ?case
  proof (cases "v = - 1")
    case True
    then have "(try_shrink_int ^^ 0) v = - 1" by simp
    then show ?thesis by blast
  next
    case False
    with less.prems have lt: "v < - 1" by simp
    then have "nat (- (v div 2)) < nat (- v)" by linarith
    moreover have "v div 2 < 0" using lt by simp
    ultimately obtain n where "(try_shrink_int ^^ n) (v div 2) = - 1"
      using less.hyps by blast
    then have "(try_shrink_int ^^ Suc n) v = - 1"
      by (simp add: funpow_swap1 shrink_neg [OF less.prems])
    then show ?thesis by blast
  qed
qed

text \<open>
  C3 (amended). For every integer \<open>v\<close> the integer shrink transform returns a result whose
  absolute value is at most \<open>\<bar>v\<bar>\<close>, and iterating the transform from \<open>v\<close> reaches a
  fixed point and stays there: the fixed point is 0 when \<open>v\<close> is not negative and \<open>-1\<close>
  when \<open>v\<close> is negative (floor division maps \<open>-1\<close> to \<open>-1\<close>, so a negative integer
  never reaches 0).
\<close>

theorem try_shrink_int_converges:
  "\<bar>try_shrink_int v\<bar> \<le> \<bar>v\<bar> \<and>
   (\<exists>n. \<forall>m. (try_shrink_int ^^ (m + n)) v = (if v < 0 then - 1 else 0))"
proof (cases "v < 0")
  case True
  then obtain n where "(try_shrink_int ^^ n) v = - 1" using reach_neg by blast
  then have "\<forall>m. (try_shrink_int ^^ (m + n)) v = - 1"
    by (simp add: funpow_add iter_m1)
  with True show ?thesis using try_shrink_int_abs [of v] by auto
next
  case False
  then obtain n where "(try_shrink_int ^^ n) v = 0" using reach_nonneg by force
  then have "\<forall>m. (try_shrink_int ^^ (m + n)) v = 0"
    by (simp add: funpow_add iter_zero)
  with False show ?thesis using try_shrink_int_abs [of v] by auto
qed

text \<open>C3 as stated fails at \<open>-1\<close>, which the transform leaves unchanged, and at \<open>-5\<close>,
  which three steps take to \<open>-1\<close>.\<close>

theorem try_shrink_int_negative_counterexample:
  "try_shrink_int (- 1) = - 1 \<and> try_shrink_int (- 1) \<noteq> 0 \<and> (try_shrink_int ^^ 3) (- 5) = - 1"
  by (simp add: try_shrink_int_def eval_nat_numeral)

section \<open>Shrink trials\<close>

text \<open>
  C2. A shrink trial (\<^verbatim>\<open>_test_trace\<close>) accepts the candidate trace exactly when the predicate
  raises on the reconstructed value, whatever the exception, and rejects it exactly when the
  predicate returns, whatever boolean it returns.
\<close>

theorem test_trace_iff_raises:
  "(test_trace t test_func \<longleftrightarrow> (\<exists>e. test_func (reconstruct_value t) = Inl e)) \<and>
   (\<not> test_trace t test_func \<longleftrightarrow> (\<exists>b. test_func (reconstruct_value t) = Inr b))"
  unfolding test_trace_def by (cases "test_func (reconstruct_value t)") auto

section \<open>Recording assignments\<close>

lemma trace_id_of_0: "trace_id_of 0 = ''t0''"
  by (simp add: trace_id_of_def str_nat.simps digit_char_def)

lemma trace_id_of_1: "trace_id_of (Suc 0) = ''t1''"
  by (simp add: trace_id_of_def str_nat.simps digit_char_def)

lemma trace_id_of_2: "trace_id_of (Suc (Suc 0)) = ''t2''"
  by (simp add: trace_id_of_def str_nat.simps digit_char_def)

lemma find_rev_none: "(\<forall>i < length xs. \<not> P (xs ! i)) \<Longrightarrow> find P (rev xs) = None"
  by (auto simp: find_None_iff in_set_conv_nth)

lemma find_rev_last_match:
  "i < length xs \<Longrightarrow> P (xs ! i) \<Longrightarrow> (\<forall>j. i < j \<and> j < length xs \<longrightarrow> \<not> P (xs ! j))
   \<Longrightarrow> find P (rev xs) = Some (xs ! i)"
proof (induction xs rule: rev_induct)
  case Nil
  then show ?case by simp
next
  case (snoc x xs)
  show ?case
  proof (cases "i = length xs")
    case True
    with snoc.prems(2) show ?thesis by simp
  next
    case False
    with snoc.prems(1) have i: "i < length xs" by simp
    have "\<not> P ((xs @ [x]) ! length xs)"
      using snoc.prems(3) i by (metis length_append_singleton lessI)
    then have nx: "\<not> P x" by simp
    have "P (xs ! i)" using snoc.prems(2) i by (simp add: nth_append)
    moreover have "\<forall>j. i < j \<and> j < length xs \<longrightarrow> \<not> P (xs ! j)"
    proof (intro allI impI)
      fix j assume j: "i < j \<and> j < length xs"
      then have "\<not> P ((xs @ [x]) ! j)" using snoc.prems(3) by simp
      with j show "\<not> P (xs ! j)" by (simp add: nth_append)
    qed
    ultimately have "find P (rev xs) = Some (xs ! i)" using snoc.IH i by blast
    with nx i show ?thesis by (simp add: nth_append)
  qed
qed

text \<open>
  C6. \<^verbatim>\<open>record_assignment(name, value)\<close>: when no entry holds a value equal to the given one,
  nothing changes; otherwise \<open>name\<close> is bound to the id of the entry of largest index (the
  most recently created one) whose value equals the given one, and nothing else changes.
\<close>

theorem record_assignment_newest_match:
  "((\<forall>i < length (entries (trace d)). entry_value (entries (trace d) ! i) \<noteq> v)
      \<longrightarrow> record_assignment d var_name v = d) \<and>
   (\<forall>i. i < length (entries (trace d)) \<and> entry_value (entries (trace d) ! i) = v \<and>
        (\<forall>j. i < j \<and> j < length (entries (trace d)) \<longrightarrow> entry_value (entries (trace d) ! j) \<noteq> v)
      \<longrightarrow> record_assignment d var_name v =
            d\<lparr>trace := (trace d)\<lparr>variable_assignments :=
                 AList.update var_name (entry_id (entries (trace d) ! i)) (variable_assignments (trace d))\<rparr>\<rparr>
          \<and> map_of (variable_assignments (trace (record_assignment d var_name v))) var_name
              = Some (entry_id (entries (trace d) ! i)))"
proof (intro conjI impI allI)
  assume "\<forall>i < length (entries (trace d)). entry_value (entries (trace d) ! i) \<noteq> v"
  then have "find (\<lambda>e. entry_value e = v) (rev (entries (trace d))) = None"
    by (intro find_rev_none) simp
  then show "record_assignment d var_name v = d"
    by (simp add: record_assignment_def)
next
  fix i
  assume h: "i < length (entries (trace d)) \<and> entry_value (entries (trace d) ! i) = v \<and>
        (\<forall>j. i < j \<and> j < length (entries (trace d)) \<longrightarrow> entry_value (entries (trace d) ! j) \<noteq> v)"
  then have f: "find (\<lambda>e. entry_value e = v) (rev (entries (trace d))) = Some (entries (trace d) ! i)"
    by (intro find_rev_last_match) simp_all
  then show "record_assignment d var_name v =
            d\<lparr>trace := (trace d)\<lparr>variable_assignments :=
                 AList.update var_name (entry_id (entries (trace d) ! i)) (variable_assignments (trace d))\<rparr>\<rparr>"
    by (simp add: record_assignment_def assign_variable_def)
  from f show "map_of (variable_assignments (trace (record_assignment d var_name v))) var_name
              = Some (entry_id (entries (trace d) ! i))"
    by (simp add: record_assignment_def assign_variable_def update_conv')
qed

theorem record_assignment_newest_match_witness:
  "map_of (variable_assignments (trace (record_assignment two_zeros ''v'' (VInt 0)))) ''v'' = Some ''t1''
   \<and> record_assignment two_zeros ''w'' (VInt 7) = two_zeros"
proof -
  have e: "entries (trace two_zeros) =
     [\<lparr>entry_id = ''t0'', strategy = 0, entry_value = VInt 0, dependencies = [], metadata = []\<rparr>,
      \<lparr>entry_id = ''t1'', strategy = 0, entry_value = VInt 0, dependencies = [''t0''], metadata = []\<rparr>]"
    by (simp add: two_zeros_def draw_def create_traceable_draw_def empty_trace_def add_entry_def Let_def trace_id_of_0 trace_id_of_1)
  have "\<forall>i < length (entries (trace two_zeros)). entry_value (entries (trace two_zeros) ! i) \<noteq> VInt 7"
    by (simp add: e less_Suc_eq)
  then have a: "record_assignment two_zeros ''w'' (VInt 7) = two_zeros"
    using record_assignment_newest_match [of two_zeros "VInt 7" "''w''"] by blast
  have "1 < length (entries (trace two_zeros)) \<and> entry_value (entries (trace two_zeros) ! 1) = VInt 0 \<and>
        (\<forall>j. 1 < j \<and> j < length (entries (trace two_zeros)) \<longrightarrow> entry_value (entries (trace two_zeros) ! j) \<noteq> VInt 0)"
    by (simp add: e)
  then have "map_of (variable_assignments (trace (record_assignment two_zeros ''v'' (VInt 0)))) ''v''
              = Some (entry_id (entries (trace two_zeros) ! 1))"
    using record_assignment_newest_match [of two_zeros "VInt 0" "''v''"] by blast
  then have b: "map_of (variable_assignments (trace (record_assignment two_zeros ''v'' (VInt 0)))) ''v'' = Some ''t1''"
    by (simp add: e)
  from a b show ?thesis by simp
qed

section \<open>Traces built by draws\<close>

lemma digit_char_inj: "a < 10 \<Longrightarrow> b < 10 \<Longrightarrow> digit_char a = digit_char b \<Longrightarrow> a = b"
proof -
  assume a: "a < 10" and b: "b < 10" and e: "digit_char a = digit_char b"
  have d: "distinct ''0123456789''" by simp
  have l: "length ''0123456789'' = 10" by simp
  from e have "''0123456789'' ! a = ''0123456789'' ! b" by (simp only: digit_char_def)
  with d a b l show "a = b" by (simp only: nth_eq_iff_index_eq)
qed

lemma str_nat_nonempty: "str_nat n \<noteq> []"
  by (subst str_nat.simps) simp

lemma str_nat_small: "n < 10 \<Longrightarrow> str_nat n = [digit_char n]"
  by (subst str_nat.simps) simp

lemma str_nat_large: "\<not> n < 10 \<Longrightarrow> str_nat n = str_nat (n div 10) @ [digit_char (n mod 10)]"
  by (subst str_nat.simps) simp

lemma str_nat_inj: "str_nat m = str_nat n \<Longrightarrow> m = n"
proof (induction m arbitrary: n rule: less_induct)
  case (less m)
  show ?case
  proof (cases "m < 10")
    case m: True
    show ?thesis
    proof (cases "n < 10")
      case True
      with m less.prems show ?thesis by (simp add: str_nat_small digit_char_inj)
    next
      case False
      with m less.prems show ?thesis
        using str_nat_nonempty [of "n div 10"] by (simp add: str_nat_small str_nat_large)
    qed
  next
    case m: False
    show ?thesis
    proof (cases "n < 10")
      case True
      with m less.prems show ?thesis
        by (simp add: str_nat_small str_nat_large str_nat_nonempty)
    next
      case False
      with m less.prems have e: "str_nat (m div 10) = str_nat (n div 10)"
        and d: "digit_char (m mod 10) = digit_char (n mod 10)"
        by (simp_all add: str_nat_large)
      have "m div 10 < m" using m by simp
      with e have "m div 10 = n div 10" using less.IH by blast
      moreover have "m mod 10 = n mod 10" using d by (intro digit_char_inj) simp_all
      ultimately show ?thesis by (metis div_mult_mod_eq)
    qed
  qed
qed

lemma trace_id_of_inj: "trace_id_of m = trace_id_of n \<longleftrightarrow> m = n"
  by (auto simp: trace_id_of_def dest: str_nat_inj)

lemma earlier_ids_mono: "m \<le> n \<Longrightarrow> earlier_ids m \<subseteq> earlier_ids n"
  by (auto simp: earlier_ids_def)

lemma draw_inv_init: "draw_inv create_traceable_draw"
  by (simp add: draw_inv_def create_traceable_draw_def empty_trace_def)

lemma draw_inv_draw: "draw_inv d \<Longrightarrow> draw_inv (draw d strat v)"
proof -
  assume inv: "draw_inv d"
  let ?n = "next_id (trace d)"
  let ?es = "entries (trace d)"
  let ?e = "\<lparr>entry_id = trace_id_of ?n, strategy = strat, entry_value = v,
             dependencies = current_dependencies d, metadata = []\<rparr>"
  have tr: "trace (draw d strat v) = (trace d)\<lparr>next_id := Suc ?n, entries := ?es @ [?e]\<rparr>"
    and cur: "current_dependencies (draw d strat v) = current_dependencies d @ [trace_id_of ?n]"
    and st: "dependency_stack (draw d strat v) = dependency_stack d"
    by (simp_all add: draw_def add_entry_def Let_def)
  from inv have len: "length ?es = ?n"
    by (metis draw_inv_def length_map length_upt minus_nat.diff_0)
  have sub: "earlier_ids ?n \<subseteq> earlier_ids (Suc ?n)" by (simp add: earlier_ids_mono)
  have new: "trace_id_of ?n \<in> earlier_ids (Suc ?n)" by (simp add: earlier_ids_def)
  have 1: "map entry_id (entries (trace (draw d strat v))) = map trace_id_of [0..<next_id (trace (draw d strat v))]"
    using inv by (simp add: tr draw_inv_def)
  have 2: "\<forall>i < length (entries (trace (draw d strat v))).
             set (dependencies (entries (trace (draw d strat v)) ! i)) \<subseteq> earlier_ids i"
  proof (intro allI impI)
    fix i assume "i < length (entries (trace (draw d strat v)))"
    then have "i < ?n \<or> i = ?n" using len by (auto simp: tr)
    then show "set (dependencies (entries (trace (draw d strat v)) ! i)) \<subseteq> earlier_ids i"
    proof
      assume "i < ?n"
      then show ?thesis using inv len by (simp add: tr nth_append draw_inv_def)
    next
      assume "i = ?n"
      then show ?thesis using inv len by (simp add: tr nth_append draw_inv_def)
    qed
  qed
  have 3: "set (current_dependencies (draw d strat v)) \<subseteq> earlier_ids (next_id (trace (draw d strat v)))"
    using inv sub new by (auto simp: cur tr draw_inv_def)
  have 4: "\<forall>s \<in> set (dependency_stack (draw d strat v)). set s \<subseteq> earlier_ids (next_id (trace (draw d strat v)))"
  proof
    fix s assume "s \<in> set (dependency_stack (draw d strat v))"
    then have "set s \<subseteq> earlier_ids ?n" using inv by (simp add: st draw_inv_def)
    with sub show "set s \<subseteq> earlier_ids (next_id (trace (draw d strat v)))"
      by (simp add: tr)
  qed
  from 1 2 3 4 show ?thesis unfolding draw_inv_def by blast
qed

lemma draw_inv_push: "draw_inv d \<Longrightarrow> draw_inv (push_dependencies d)"
  by (auto simp: draw_inv_def push_dependencies_def)

lemma draw_inv_pop: "draw_inv d \<Longrightarrow> draw_inv (pop_dependencies d)"
  by (auto simp: draw_inv_def pop_dependencies_def dest: in_set_butlastD)

lemma draw_inv_record: "draw_inv d \<Longrightarrow> draw_inv (record_assignment d var_name v)"
  by (auto simp: draw_inv_def record_assignment_def assign_variable_def split: option.splits)

lemma draw_inv_apply_op: "draw_inv d \<Longrightarrow> draw_inv (apply_op d x)"
  by (cases x) (simp_all add: draw_inv_draw draw_inv_push draw_inv_pop draw_inv_record)

lemma draw_inv_foldl: "draw_inv d \<Longrightarrow> draw_inv (foldl apply_op d ops)"
  by (induction ops arbitrary: d) (simp_all add: draw_inv_apply_op)

lemma draw_inv_run_ops: "draw_inv (run_ops ops)"
  unfolding run_ops_def by (rule draw_inv_foldl [OF draw_inv_init])

text \<open>
  C9. In a trace built only through draws (with scopes and recorded assignments, and no injected
  dependency list), the entry at position \<open>i\<close> has the id \<^verbatim>\<open>t\<close>\<open>i\<close>; each of its
  dependencies is the id of an entry at a strictly smaller position; its own id is not among
  its dependencies; and the ids are pairwise distinct, since different counter values give
  different ids.
\<close>

theorem draws_dependencies_earlier:
  "(\<forall>i < length (entries (trace (run_ops ops))).
      entry_id (entries (trace (run_ops ops)) ! i) = trace_id_of i \<and>
      (\<forall>x \<in> set (dependencies (entries (trace (run_ops ops)) ! i)).
          \<exists>j < i. x = entry_id (entries (trace (run_ops ops)) ! j)) \<and>
      entry_id (entries (trace (run_ops ops)) ! i) \<notin> set (dependencies (entries (trace (run_ops ops)) ! i))) \<and>
   length (entries (trace (run_ops ops))) = next_id (trace (run_ops ops)) \<and>
   distinct (map entry_id (entries (trace (run_ops ops)))) \<and>
   (\<forall>i j. i < j \<longrightarrow> trace_id_of i \<noteq> trace_id_of j)"
proof -
  let ?d = "run_ops ops"
  let ?es = "entries (trace ?d)"
  have inv: "draw_inv ?d" by (rule draw_inv_run_ops)
  then have ids: "map entry_id ?es = map trace_id_of [0..<next_id (trace ?d)]"
    by (simp add: draw_inv_def)
  then have len: "length ?es = next_id (trace ?d)"
    by (metis length_map length_upt minus_nat.diff_0)
  have idi: "entry_id (?es ! i) = trace_id_of i" if "i < length ?es" for i
  proof -
    have "map entry_id ?es ! i = map trace_id_of [0..<next_id (trace ?d)] ! i" using ids by simp
    with that len show ?thesis by simp
  qed
  have deps: "set (dependencies (?es ! i)) \<subseteq> earlier_ids i" if "i < length ?es" for i
    using inv that by (simp add: draw_inv_def)
  have a: "\<exists>j < i. x = entry_id (?es ! j)" if "i < length ?es" "x \<in> set (dependencies (?es ! i))" for i x
  proof -
    from deps [OF that(1)] that(2) obtain j where j: "j < i" "x = trace_id_of j"
      by (auto simp: earlier_ids_def)
    with that(1) have "x = entry_id (?es ! j)" by (simp add: idi)
    with j show ?thesis by blast
  qed
  have b: "entry_id (?es ! i) \<notin> set (dependencies (?es ! i))" if "i < length ?es" for i
  proof
    assume "entry_id (?es ! i) \<in> set (dependencies (?es ! i))"
    with deps [OF that] obtain j where "j < i" "entry_id (?es ! i) = trace_id_of j"
      by (auto simp: earlier_ids_def)
    with that show False by (simp add: idi trace_id_of_inj)
  qed
  have c: "distinct (map entry_id ?es)"
    unfolding ids by (simp add: distinct_map inj_on_def trace_id_of_inj)
  have d: "\<forall>i j. i < j \<longrightarrow> trace_id_of i \<noteq> trace_id_of j"
    by (simp add: trace_id_of_inj)
  from idi a b len c d show ?thesis by blast
qed

lemma nested_draws_entries:
  "entries (trace (run_ops nested_draws)) =
     [\<lparr>entry_id = ''t0'', strategy = 0, entry_value = VInt 80, dependencies = [], metadata = []\<rparr>,
      \<lparr>entry_id = ''t1'', strategy = 0, entry_value = VInt 70, dependencies = [''t0''], metadata = []\<rparr>,
      \<lparr>entry_id = ''t2'', strategy = 1, entry_value = VStr ''ab'', dependencies = [''t0''], metadata = []\<rparr>]"
  by (simp add: nested_draws_def run_ops_def draw_def create_traceable_draw_def empty_trace_def
      add_entry_def Let_def push_dependencies_def pop_dependencies_def record_assignment_def
      assign_variable_def trace_id_of_0 trace_id_of_1 trace_id_of_2)

theorem draws_dependencies_earlier_witness:
  "entry_id (entries (trace (run_ops nested_draws)) ! 2) = trace_id_of 2 \<and>
   (\<exists>j < 2. ''t0'' = entry_id (entries (trace (run_ops nested_draws)) ! j)) \<and>
   ''t2'' \<notin> set (dependencies (entries (trace (run_ops nested_draws)) ! 2)) \<and>
   length (entries (trace (run_ops nested_draws))) = 3 \<and>
   distinct (map entry_id (entries (trace (run_ops nested_draws)))) \<and>
   trace_id_of 1 \<noteq> trace_id_of 2"
proof -
  note t = draws_dependencies_earlier [of nested_draws]
  have l: "(2::nat) < length (entries (trace (run_ops nested_draws)))"
    by (simp add: nested_draws_entries)
  have m: "''t0'' \<in> set (dependencies (entries (trace (run_ops nested_draws)) ! 2))"
    by (simp add: nested_draws_entries)
  have i: "entry_id (entries (trace (run_ops nested_draws)) ! 2) = ''t2''"
    by (simp add: nested_draws_entries)
  have n: "length (entries (trace (run_ops nested_draws))) = 3"
    by (simp add: nested_draws_entries)
  have o: "(1::nat) < 2" by simp
  from t l m i n o show ?thesis by (metis (no_types, lifting))
qed

section \<open>Traces made by the library\<close>

text \<open>Entry ids are never reused: in every trace the library makes, the ids of the entries are
  pairwise distinct and were handed out before the counter reached its current value.\<close>

lemma set_first_value_ids: "map entry_id (set_first_value eid v es) = map entry_id es"
  by (induction es) auto

lemma set_first_value_deps: "map dependencies (set_first_value eid v es) = map dependencies es"
  by (induction es) auto

lemma entry_ids_map: "entry_ids t = set (map entry_id (entries t))"
  by (simp add: entry_ids_def)

lemma built_ids:
  "built t \<Longrightarrow> distinct (map entry_id (entries t)) \<and> entry_ids t \<subseteq> earlier_ids (next_id t)"
proof (induction rule: built.induct)
  case built_empty
  show ?case by (simp add: empty_trace_def entry_ids_def)
next
  case (built_add t strat v deps)
  have new: "trace_id_of (next_id t) \<notin> earlier_ids (next_id t)"
    by (auto simp: earlier_ids_def trace_id_of_inj)
  have sub: "earlier_ids (next_id t) \<subseteq> earlier_ids (Suc (next_id t))" by (simp add: earlier_ids_mono)
  have "trace_id_of (next_id t) \<in> earlier_ids (Suc (next_id t))" by (simp add: earlier_ids_def)
  with built_add.IH new sub show ?case
    by (auto simp: add_entry_def Let_def entry_ids_def)
next
  case (built_assign t var_name trace_id)
  then show ?case by (simp add: assign_variable_def entry_ids_def)
next
  case (built_modify t eid v)
  then show ?case
    by (simp add: entry_ids_map create_modified_trace_def set_first_value_ids)
next
  case (built_remove t eid t')
  from built_remove.hyps(2) have e: "map entry_id (entries t') = filter (\<lambda>x. x \<noteq> eid) (map entry_id (entries t))"
    and n: "next_id t' = next_id t"
    by (auto simp: remove_entry_def Let_def filter_map comp_def)
  from built_remove.IH e n show ?case by (auto simp: entry_ids_map)
qed

lemma built_distinct: "built t \<Longrightarrow> distinct (map entry_id (entries t))"
  by (simp add: built_ids)

lemma built_run_ops: "built (trace (run_ops ops))"
proof -
  have "built (trace d) \<Longrightarrow> built (trace (foldl apply_op d ops))" for d
  proof (induction ops arbitrary: d)
    case Nil
    then show ?case by simp
  next
    case (Cons x ops)
    have "built (trace (apply_op d x))"
    proof (cases x)
      case (Draw strat v)
      have "trace (draw d strat v) = snd (add_entry (trace d) strat v (Some (current_dependencies d)))"
        by (simp add: draw_def split: prod.splits)
      with Draw Cons.prems show ?thesis by (simp add: built_add)
    next
      case Push
      with Cons.prems show ?thesis by (simp add: push_dependencies_def)
    next
      case Pop
      with Cons.prems show ?thesis by (simp add: pop_dependencies_def)
    next
      case (Record var_name v)
      with Cons.prems show ?thesis
        by (auto simp: record_assignment_def built_assign split: option.splits)
    qed
    then show ?case using Cons.IH by simp
  qed
  moreover have "built (trace create_traceable_draw)"
    by (simp add: create_traceable_draw_def built_empty)
  ultimately show ?thesis by (simp add: run_ops_def)
qed

text \<open>With pairwise distinct ids, an id names one entry, and looking an id up finds it.\<close>

lemma entry_id_unique:
  "distinct (map entry_id es) \<Longrightarrow> e \<in> set es \<Longrightarrow> e' \<in> set es \<Longrightarrow> entry_id e' = entry_id e \<Longrightarrow> e' = e"
proof -
  assume "distinct (map entry_id es)"
  then have "inj_on entry_id (set es)" by (simp add: distinct_map)
  moreover assume "e \<in> set es" "e' \<in> set es" "entry_id e' = entry_id e"
  ultimately show "e' = e" unfolding inj_on_def by blast
qed

lemma find_entry_distinct:
  "distinct (map entry_id (entries t)) \<Longrightarrow> e \<in> set (entries t) \<Longrightarrow> find_entry t (entry_id e) = Some e"
proof -
  assume d: "distinct (map entry_id (entries t))" and e: "e \<in> set (entries t)"
  then have "entry_id e \<in> entry_id ` set (entries t)" by simp
  then obtain e' where f: "find_entry t (entry_id e) = Some e'"
    by (cases "find_entry t (entry_id e)") (auto simp: find_entry_def find_None_iff)
  then have "e' \<in> set (entries t)" "entry_id e' = entry_id e"
    by (auto simp: find_entry_def find_Some_iff)
  with d e have "e' = e" by (simp add: entry_id_unique)
  with f show ?thesis by simp
qed

lemma find_entry_member: "find_entry t x = Some e \<Longrightarrow> e \<in> set (entries t) \<and> entry_id e = x"
  by (auto simp: find_entry_def find_Some_iff)

text \<open>A substituted value that differs from the value of the entry makes a different trace.\<close>

lemma set_first_value_differs:
  "distinct (map entry_id es) \<Longrightarrow> e \<in> set es \<Longrightarrow> v \<noteq> entry_value e \<Longrightarrow>
   set_first_value (entry_id e) v es \<noteq> es"
proof (induction es)
  case Nil
  then show ?case by simp
next
  case (Cons a es)
  show ?case
  proof (cases "entry_id a = entry_id e")
    case True
    have "a = e"
      by (rule entry_id_unique [OF Cons.prems(1) Cons.prems(2) _ True]) simp
    have "a\<lparr>entry_value := v\<rparr> \<noteq> a"
    proof
      assume "a\<lparr>entry_value := v\<rparr> = a"
      then have "entry_value (a\<lparr>entry_value := v\<rparr>) = entry_value a" by (rule arg_cong)
      with \<open>a = e\<close> Cons.prems(3) show False by simp
    qed
    with True show ?thesis by simp
  next
    case False
    with Cons.prems have "e \<in> set es" "distinct (map entry_id es)" by auto
    with Cons.IH Cons.prems(3) False show ?thesis by simp
  qed
qed

lemma create_modified_trace_differs:
  "built t \<Longrightarrow> e \<in> set (entries t) \<Longrightarrow> v \<noteq> entry_value e \<Longrightarrow>
   create_modified_trace t (entry_id e) v \<noteq> t"
proof -
  assume b: "built t" and e: "e \<in> set (entries t)" and v: "v \<noteq> entry_value e"
  have "entries (create_modified_trace t (entry_id e) v) \<noteq> entries t"
    using set_first_value_differs [OF built_distinct [OF b] e v]
    by (simp add: create_modified_trace_def)
  then show ?thesis
  proof (rule contrapos_nn)
    assume "create_modified_trace t (entry_id e) v = t"
    then show "entries (create_modified_trace t (entry_id e) v) = entries t" by (rule arg_cong)
  qed
qed

section \<open>Variable dependencies\<close>

text \<open>The dependency edges of a trace, read off its entries: from the id of an entry to each
  id in its dependency list.\<close>

definition entry_edges :: "generation_trace \<Rightarrow> (string \<times> string) set" where
  "entry_edges t = {(x, y). \<exists>e \<in> set (entries t). entry_id e = x \<and> y \<in> set (dependencies e)}"

text \<open>The edges \<^verbatim>\<open>collect_deps\<close> follows: from an id to the dependencies of the first entry
  that carries it.\<close>

definition dependency_edges :: "generation_trace \<Rightarrow> (string \<times> string) set" where
  "dependency_edges t = {(x, y). \<exists>e. find_entry t x = Some e \<and> y \<in> set (dependencies e)}"

text \<open>The edges followed are edges of the trace, and with pairwise distinct ids they are all of
  them.\<close>

lemma dependency_edges_subset: "dependency_edges t \<subseteq> entry_edges t"
  by (auto simp: dependency_edges_def entry_edges_def dest: find_entry_member)

lemma dependency_edges_distinct:
  "distinct (map entry_id (entries t)) \<Longrightarrow> dependency_edges t = entry_edges t"
proof
  show "dependency_edges t \<subseteq> entry_edges t" by (rule dependency_edges_subset)
next
  assume d: "distinct (map entry_id (entries t))"
  show "entry_edges t \<subseteq> dependency_edges t"
  proof
    fix p assume "p \<in> entry_edges t"
    then obtain e where e: "e \<in> set (entries t)" "entry_id e = fst p" "snd p \<in> set (dependencies e)"
      by (auto simp: entry_edges_def)
    from find_entry_distinct [OF d e(1)] e(2) have "find_entry t (fst p) = Some e" by simp
    with e(3) have "(fst p, snd p) \<in> dependency_edges t" unfolding dependency_edges_def by blast
    then show "p \<in> dependency_edges t" by simp
  qed
qed

lemma closed_rtrancl:
  "(s, y) \<in> E\<^sup>* \<Longrightarrow> s \<in> R \<Longrightarrow> (\<forall>x \<in> R. \<forall>z. (x, z) \<in> E \<longrightarrow> z \<in> R) \<Longrightarrow> y \<in> R"
  by (induction rule: rtrancl_induct) auto

lemma collect_deps_visited: "node_id \<in> deps \<Longrightarrow> collect_deps t node_id deps = deps"
  by (simp add: collect_deps.simps)

lemma collect_deps_no_entry:
  "node_id \<notin> deps \<Longrightarrow> find_entry t node_id = None \<Longrightarrow> collect_deps t node_id deps = insert node_id deps"
  by (simp add: collect_deps.simps)

lemma collect_deps_entry:
  "node_id \<notin> deps \<Longrightarrow> find_entry t node_id = Some entry \<Longrightarrow>
   collect_deps t node_id deps = collect_deps_each t (dependencies entry) (insert node_id deps)"
  by (simp add: collect_deps.simps)

lemma collect_deps_mono:
  "deps \<subseteq> collect_deps t node_id deps"
  "deps \<subseteq> collect_deps_each t ds deps"
proof (induction t node_id deps and t ds deps rule: collect_deps_collect_deps_each.induct)
  case (1 t node_id deps)
  show ?case
  proof (cases "node_id \<in> deps")
    case True
    then show ?thesis by (simp add: collect_deps_visited)
  next
    case False
    show ?thesis
    proof (cases "find_entry t node_id")
      case None
      with False show ?thesis by (auto simp: collect_deps_no_entry)
    next
      case (Some entry)
      from "1.IH" [OF False Some] show ?thesis
        by (simp add: collect_deps_entry [OF False Some])
    qed
  qed
next
  case (2 t deps)
  show ?case by simp
next
  case (3 t dep_id rest deps)
  then show ?case by auto
qed

lemma collect_deps_contains:
  "node_id \<in> collect_deps t node_id deps"
  "set ds \<subseteq> collect_deps_each t ds deps"
proof (induction t node_id deps and t ds deps rule: collect_deps_collect_deps_each.induct)
  case (1 t node_id deps)
  show ?case
  proof (cases "node_id \<in> deps")
    case True
    then show ?thesis by (simp add: collect_deps_visited)
  next
    case False
    show ?thesis
    proof (cases "find_entry t node_id")
      case None
      with False show ?thesis by (simp add: collect_deps_no_entry)
    next
      case (Some entry)
      have "insert node_id deps \<subseteq> collect_deps_each t (dependencies entry) (insert node_id deps)"
        by (rule collect_deps_mono(2))
      then show ?thesis by (simp add: collect_deps_entry [OF False Some])
    qed
  qed
next
  case (2 t deps)
  show ?case by simp
next
  case (3 t dep_id rest deps)
  have "dep_id \<in> collect_deps t dep_id deps" by (rule "3.IH"(1))
  then have "dep_id \<in> collect_deps_each t rest (collect_deps t dep_id deps)"
    using collect_deps_mono(2) by blast
  with "3.IH"(2) show ?case by simp
qed

lemma collect_deps_sound:
  "collect_deps t node_id deps \<subseteq> deps \<union> (dependency_edges t)\<^sup>* `` {node_id}"
  "collect_deps_each t ds deps \<subseteq> deps \<union> (dependency_edges t)\<^sup>* `` set ds"
proof (induction t node_id deps and t ds deps rule: collect_deps_collect_deps_each.induct)
  case (1 t node_id deps)
  show ?case
  proof (cases "node_id \<in> deps")
    case True
    then show ?thesis by (simp add: collect_deps_visited)
  next
    case False
    show ?thesis
    proof (cases "find_entry t node_id")
      case None
      with False show ?thesis by (auto simp: collect_deps_no_entry)
    next
      case (Some entry)
      have step: "(dependency_edges t)\<^sup>* `` set (dependencies entry) \<subseteq> (dependency_edges t)\<^sup>* `` {node_id}"
      proof
        fix y assume "y \<in> (dependency_edges t)\<^sup>* `` set (dependencies entry)"
        then obtain d where d: "d \<in> set (dependencies entry)" "(d, y) \<in> (dependency_edges t)\<^sup>*" by auto
        from d(1) Some have "(node_id, d) \<in> dependency_edges t" by (auto simp: dependency_edges_def)
        with d(2) show "y \<in> (dependency_edges t)\<^sup>* `` {node_id}" by auto
      qed
      from "1.IH" [OF False Some] step show ?thesis
        unfolding collect_deps_entry [OF False Some] by auto
    qed
  qed
next
  case (2 t deps)
  show ?case by simp
next
  case (3 t dep_id rest deps)
  let ?R1 = "collect_deps t dep_id deps"
  have "collect_deps_each t rest ?R1 \<subseteq> ?R1 \<union> (dependency_edges t)\<^sup>* `` set rest"
    by (rule "3.IH"(2))
  with "3.IH"(1) show ?case by auto
qed

lemma collect_deps_new_closed:
  "\<forall>x \<in> collect_deps t node_id deps - deps. dependency_edges t `` {x} \<subseteq> collect_deps t node_id deps"
  "\<forall>x \<in> collect_deps_each t ds deps - deps. dependency_edges t `` {x} \<subseteq> collect_deps_each t ds deps"
proof (induction t node_id deps and t ds deps rule: collect_deps_collect_deps_each.induct)
  case (1 t node_id deps)
  show ?case
  proof (cases "node_id \<in> deps")
    case True
    then show ?thesis by (simp add: collect_deps_visited)
  next
    case False
    show ?thesis
    proof (cases "find_entry t node_id")
      case None
      with False show ?thesis by (auto simp: dependency_edges_def collect_deps_no_entry)
    next
      case (Some entry)
      let ?R = "collect_deps_each t (dependencies entry) (insert node_id deps)"
      have R: "collect_deps t node_id deps = ?R" by (rule collect_deps_entry [OF False Some])
      have own: "dependency_edges t `` {node_id} \<subseteq> ?R"
        using Some collect_deps_contains(2) [of "dependencies entry" t "insert node_id deps"]
        by (auto simp: dependency_edges_def)
      have "\<forall>x \<in> ?R - insert node_id deps. dependency_edges t `` {x} \<subseteq> ?R"
        by (rule "1.IH" [OF False Some])
      with own show ?thesis unfolding R by blast
    qed
  qed
next
  case (2 t deps)
  show ?case by simp
next
  case (3 t dep_id rest deps)
  let ?R1 = "collect_deps t dep_id deps"
  let ?R = "collect_deps_each t rest ?R1"
  have m: "?R1 \<subseteq> ?R" by (rule collect_deps_mono(2))
  from "3.IH"(1) m have a: "\<forall>x \<in> ?R1 - deps. dependency_edges t `` {x} \<subseteq> ?R" by blast
  from "3.IH"(2) have b: "\<forall>x \<in> ?R - ?R1. dependency_edges t `` {x} \<subseteq> ?R" .
  have "collect_deps_each t (dep_id # rest) deps = ?R" by simp
  with a b show ?case by auto
qed

lemma collect_deps_reachable:
  "collect_deps t start {} = (dependency_edges t)\<^sup>* `` {start}"
proof
  show "collect_deps t start {} \<subseteq> (dependency_edges t)\<^sup>* `` {start}"
    using collect_deps_sound(1) [of t start "{}"] by simp
  show "(dependency_edges t)\<^sup>* `` {start} \<subseteq> collect_deps t start {}"
  proof
    fix y assume "y \<in> (dependency_edges t)\<^sup>* `` {start}"
    then have p: "(start, y) \<in> (dependency_edges t)\<^sup>*" by simp
    have c: "\<forall>x \<in> collect_deps t start {}. \<forall>z. (x, z) \<in> dependency_edges t \<longrightarrow> z \<in> collect_deps t start {}"
      using collect_deps_new_closed(1) [of t start "{}"] by auto
    show "y \<in> collect_deps t start {}"
      by (rule closed_rtrancl [OF p collect_deps_contains(1) c])
  qed
qed

lemma variable_dependencies_closure:
  "map_of (variable_assignments t) var_name = Some trace_id \<Longrightarrow>
   get_variable_dependencies t var_name = {y. (trace_id, y) \<in> (dependency_edges t)\<^sup>*}"
  by (auto simp: get_variable_dependencies_def collect_deps_reachable)

lemma nested_draws_assignments:
  "variable_assignments (trace (run_ops nested_draws)) = [(''y'', ''t1'')]"
  by (simp add: nested_draws_def run_ops_def draw_def create_traceable_draw_def empty_trace_def
      add_entry_def Let_def push_dependencies_def pop_dependencies_def record_assignment_def
      assign_variable_def trace_id_of_0 trace_id_of_1 trace_id_of_2)

lemma nested_draws_edges:
  "entry_edges (trace (run_ops nested_draws)) = {(''t1'', ''t0''), (''t2'', ''t0'')}"
  by (auto simp: entry_edges_def nested_draws_entries)

lemma nested_draws_reachable:
  "{y. (''t1'', y) \<in> (entry_edges (trace (run_ops nested_draws)))\<^sup>*} = {''t0'', ''t1''}"
proof
  show "{y. (''t1'', y) \<in> (entry_edges (trace (run_ops nested_draws)))\<^sup>*} \<subseteq> {''t0'', ''t1''}"
  proof
    fix y assume "y \<in> {y. (''t1'', y) \<in> (entry_edges (trace (run_ops nested_draws)))\<^sup>*}"
    then have p: "(''t1'', y) \<in> (entry_edges (trace (run_ops nested_draws)))\<^sup>*" by simp
    show "y \<in> {''t0'', ''t1''}"
      by (rule closed_rtrancl [OF p]) (auto simp: nested_draws_edges)
  qed
  have "(''t1'', ''t0'') \<in> entry_edges (trace (run_ops nested_draws))"
    by (simp add: nested_draws_edges)
  then show "{''t0'', ''t1''} \<subseteq> {y. (''t1'', y) \<in> (entry_edges (trace (run_ops nested_draws)))\<^sup>*}"
    by auto
qed

text \<open>
  C10. For a name that is not bound, \<^verbatim>\<open>get_variable_dependencies\<close> returns the empty set.
  For a name bound to an id, in every trace, the result contains that id itself and only ids
  reachable from it in zero or more steps along the dependency edges of the entries; in every
  trace the library makes, it is exactly the set of those ids.
\<close>

theorem variable_dependencies_reflexive_closure:
  "(map_of (variable_assignments t) var_name = None \<longrightarrow> get_variable_dependencies t var_name = {}) \<and>
   (\<forall>trace_id. map_of (variable_assignments t) var_name = Some trace_id \<longrightarrow>
      trace_id \<in> get_variable_dependencies t var_name \<and>
      get_variable_dependencies t var_name \<subseteq> {y. (trace_id, y) \<in> (entry_edges t)\<^sup>*} \<and>
      (built t \<longrightarrow> get_variable_dependencies t var_name = {y. (trace_id, y) \<in> (entry_edges t)\<^sup>*}))"
proof (intro conjI impI allI)
  assume "map_of (variable_assignments t) var_name = None"
  then show "get_variable_dependencies t var_name = {}"
    by (simp add: get_variable_dependencies_def)
next
  fix trace_id assume a: "map_of (variable_assignments t) var_name = Some trace_id"
  from variable_dependencies_closure [OF a]
  show "trace_id \<in> get_variable_dependencies t var_name" by simp
next
  fix trace_id assume a: "map_of (variable_assignments t) var_name = Some trace_id"
  have "(dependency_edges t)\<^sup>* \<subseteq> (entry_edges t)\<^sup>*"
    by (rule rtrancl_mono) (rule dependency_edges_subset)
  with variable_dependencies_closure [OF a]
  show "get_variable_dependencies t var_name \<subseteq> {y. (trace_id, y) \<in> (entry_edges t)\<^sup>*}" by auto
next
  fix trace_id assume a: "map_of (variable_assignments t) var_name = Some trace_id" and b: "built t"
  from b have "dependency_edges t = entry_edges t"
    by (simp add: dependency_edges_distinct built_distinct)
  with variable_dependencies_closure [OF a]
  show "get_variable_dependencies t var_name = {y. (trace_id, y) \<in> (entry_edges t)\<^sup>*}" by simp
qed

text \<open>In the trace of \<open>nested_draws\<close> the name \<open>y\<close> is bound to \<open>t1\<close>, whose entry depends on
  \<open>t0\<close>: the dependencies of \<open>y\<close> are \<open>t0\<close> and \<open>t1\<close>, and \<open>t2\<close> is not among them. The name
  \<open>x\<close> is not bound.\<close>

theorem variable_dependencies_reflexive_closure_witness:
  "map_of (variable_assignments (trace (run_ops nested_draws))) ''y'' = Some ''t1'' \<and>
   built (trace (run_ops nested_draws)) \<and>
   get_variable_dependencies (trace (run_ops nested_draws)) ''y'' = {''t0'', ''t1''} \<and>
   map_of (variable_assignments (trace (run_ops nested_draws))) ''x'' = None \<and>
   get_variable_dependencies (trace (run_ops nested_draws)) ''x'' = {}"
proof -
  have a: "map_of (variable_assignments (trace (run_ops nested_draws))) ''y'' = Some ''t1''"
    by (simp add: nested_draws_assignments)
  have b: "map_of (variable_assignments (trace (run_ops nested_draws))) ''x'' = None"
    by (simp add: nested_draws_assignments)
  have c: "built (trace (run_ops nested_draws))" by (rule built_run_ops)
  from variable_dependencies_reflexive_closure [of "trace (run_ops nested_draws)" "''y''"] a c
  have "get_variable_dependencies (trace (run_ops nested_draws)) ''y'' =
      {y. (''t1'', y) \<in> (entry_edges (trace (run_ops nested_draws)))\<^sup>*}" by blast
  then have d: "get_variable_dependencies (trace (run_ops nested_draws)) ''y'' = {''t0'', ''t1''}"
    by (simp only: nested_draws_reachable)
  from variable_dependencies_reflexive_closure [of "trace (run_ops nested_draws)" "''x''"] b
  have e: "get_variable_dependencies (trace (run_ops nested_draws)) ''x'' = {}" by blast
  from a b c d e show ?thesis by simp
qed

section \<open>Connected components\<close>

lemma dict_get_update:
  "dict_get (AList.update k v d) x dflt = (if x = k then v else dict_get d x dflt)"
  by (simp add: dict_get_def update_conv')

lemma dict_get_add_reverse:
  "dict_get (add_reverse eid dep_id reverse) x {} =
     (if x = dep_id then insert eid (dict_get reverse x {}) else dict_get reverse x {})"
  by (simp add: add_reverse_def Let_def dict_get_update) (simp add: dict_get_def)

lemma dict_get_fold_add_reverse:
  "dict_get (fold (add_reverse eid) ds reverse) x {} =
     (if x \<in> set ds then insert eid (dict_get reverse x {}) else dict_get reverse x {})"
  by (induction ds arbitrary: reverse) (auto simp: dict_get_add_reverse)

lemma dict_get_fold_entries:
  "dict_get (fold (\<lambda>entry reverse. fold (add_reverse (entry_id entry)) (dependencies entry) reverse) es reverse) x {} =
     dict_get reverse x {} \<union> {entry_id e | e. e \<in> set es \<and> x \<in> set (dependencies e)}"
  by (induction es arbitrary: reverse) (auto simp: dict_get_fold_add_reverse)

lemma reverse_dependencies_lookup:
  "dict_get (get_reverse_dependencies t) x {} =
     {entry_id e | e. e \<in> set (entries t) \<and> x \<in> set (dependencies e)}"
  by (simp add: get_reverse_dependencies_def dict_get_fold_entries) (simp add: dict_get_def)

lemma finite_reverse_dependencies: "finite (dict_get (get_reverse_dependencies t) x {})"
  by (simp add: reverse_dependencies_lookup)

lemma map_of_fold_graph_other:
  "x \<notin> entry_id ` set es \<Longrightarrow>
   map_of (fold (\<lambda>entry graph. AList.update (entry_id entry) (set (dependencies entry)) graph) es g) x = map_of g x"
  by (induction es arbitrary: g) (auto simp: update_conv')

lemma map_of_fold_graph_entry:
  "distinct (map entry_id es) \<Longrightarrow> e \<in> set es \<Longrightarrow>
   map_of (fold (\<lambda>entry graph. AList.update (entry_id entry) (set (dependencies entry)) graph) es g) (entry_id e)
     = Some (set (dependencies e))"
proof (induction es arbitrary: g)
  case Nil
  then show ?case by simp
next
  case (Cons a es)
  show ?case
  proof (cases "e \<in> set es")
    case True
    with Cons show ?thesis by simp
  next
    case False
    with Cons.prems have ea: "e = a" by simp
    with Cons.prems(1) have "entry_id e \<notin> entry_id ` set es" by auto
    then show ?thesis using ea by (simp add: map_of_fold_graph_other update_conv')
  qed
qed

lemma dependency_graph_lookup:
  "distinct (map entry_id (entries t)) \<Longrightarrow>
   dict_get (get_dependency_graph t) x {} = {y. \<exists>e \<in> set (entries t). entry_id e = x \<and> y \<in> set (dependencies e)}"
proof (cases "x \<in> entry_id ` set (entries t)")
  case True
  assume d: "distinct (map entry_id (entries t))"
  from True obtain e where e: "e \<in> set (entries t)" "entry_id e = x" by auto
  have u: "\<forall>e' \<in> set (entries t). entry_id e' = x \<longrightarrow> e' = e"
    using entry_id_unique [OF d e(1)] e(2) by simp
  have "map_of (get_dependency_graph t) x = Some (set (dependencies e))"
    using map_of_fold_graph_entry [OF d e(1), of "[]"] e(2)
    by (simp add: get_dependency_graph_def)
  then have l: "dict_get (get_dependency_graph t) x {} = set (dependencies e)"
    by (simp add: dict_get_def)
  have "{y. \<exists>e' \<in> set (entries t). entry_id e' = x \<and> y \<in> set (dependencies e')} = set (dependencies e)"
    using e u by blast
  with l show ?thesis by simp
next
  case False
  then have "map_of (get_dependency_graph t) x = None"
    by (simp add: get_dependency_graph_def map_of_fold_graph_other)
  then have "dict_get (get_dependency_graph t) x {} = {}"
    by (simp add: dict_get_def)
  with False show ?thesis by auto
qed

lemma dfs_visited: "node_id \<in> fst s \<Longrightarrow> dfs t order node_id s = s"
  by (cases s) (simp add: dfs.simps)

lemma dfs_no_entry:
  "node_id \<notin> fst s \<Longrightarrow> find_entry t node_id = None \<Longrightarrow>
   dfs t order node_id s = (insert node_id (fst s), insert node_id (snd s))"
  by (cases s) (simp add: dfs.simps)

lemma dfs_entry:
  "node_id \<notin> fst s \<Longrightarrow> find_entry t node_id = Some entry \<Longrightarrow>
   dfs t order node_id s =
     dfs_each t order (order (dict_get (get_reverse_dependencies t) node_id {}))
       (dfs_each t order (dependencies entry) (insert node_id (fst s), insert node_id (snd s)))"
  by (cases s) (simp add: dfs.simps)

lemma dfs_mono:
  "fst s \<subseteq> fst (dfs t order node_id s)"
  "fst s \<subseteq> fst (dfs_each t order xs s)"
proof (induction t order node_id s and t order xs s rule: dfs_dfs_each.induct)
  case (1 t order node_id visited component)
  show ?case
  proof (cases "node_id \<in> visited")
    case True
    then show ?thesis by (simp add: dfs_visited)
  next
    case False
    show ?thesis
    proof (cases "find_entry t node_id")
      case None
      with False show ?thesis by (auto simp: dfs_no_entry)
    next
      case (Some entry)
      from "1.IH"(1) [OF False Some] "1.IH"(2) [OF False Some] show ?thesis
        using False Some by (simp add: dfs_entry) blast
    qed
  qed
next
  case (2 t order s)
  show ?case by simp
next
  case (3 t order x xs s)
  then show ?case by auto
qed

lemma dfs_contains:
  "node_id \<in> fst (dfs t order node_id s)"
  "set xs \<subseteq> fst (dfs_each t order xs s)"
proof (induction t order node_id s and t order xs s rule: dfs_dfs_each.induct)
  case (1 t order node_id visited component)
  show ?case
  proof (cases "node_id \<in> visited")
    case True
    then show ?thesis by (simp add: dfs_visited)
  next
    case False
    show ?thesis
    proof (cases "find_entry t node_id")
      case None
      with False show ?thesis by (simp add: dfs_no_entry)
    next
      case (Some entry)
      let ?s1 = "dfs_each t order (dependencies entry) (insert node_id visited, insert node_id component)"
      have "node_id \<in> fst ?s1" using dfs_mono(2) [of "(insert node_id visited, insert node_id component)"] by auto
      then have "node_id \<in> fst (dfs_each t order (order (dict_get (get_reverse_dependencies t) node_id {})) ?s1)"
        using dfs_mono(2) by blast
      then show ?thesis using False Some by (simp add: dfs_entry)
    qed
  qed
next
  case (2 t order s)
  show ?case by simp
next
  case (3 t order x xs s)
  have "x \<in> fst (dfs t order x s)" by (rule "3.IH"(1))
  then have "x \<in> fst (dfs_each t order xs (dfs t order x s))"
    using dfs_mono(2) by blast
  with "3.IH"(2) show ?case by simp
qed

lemma dfs_component:
  "snd (dfs t order node_id s) = snd s \<union> (fst (dfs t order node_id s) - fst s)"
  "snd (dfs_each t order xs s) = snd s \<union> (fst (dfs_each t order xs s) - fst s)"
proof (induction t order node_id s and t order xs s rule: dfs_dfs_each.induct)
  case (1 t order node_id visited component)
  show ?case
  proof (cases "node_id \<in> visited")
    case True
    then show ?thesis by (simp add: dfs_visited)
  next
    case False
    show ?thesis
    proof (cases "find_entry t node_id")
      case None
      with False show ?thesis by (auto simp: dfs_no_entry)
    next
      case (Some entry)
      let ?s1 = "(insert node_id visited, insert node_id component)"
      let ?s2 = "dfs_each t order (dependencies entry) ?s1"
      let ?s3 = "dfs_each t order (order (dict_get (get_reverse_dependencies t) node_id {})) ?s2"
      have e: "dfs t order node_id (visited, component) = ?s3"
        using False Some by (simp add: dfs_entry)
      have a: "snd ?s2 = snd ?s1 \<union> (fst ?s2 - fst ?s1)" by (rule "1.IH"(1) [OF False Some])
      have b: "snd ?s3 = snd ?s2 \<union> (fst ?s3 - fst ?s2)" by (rule "1.IH"(2) [OF False Some])
      have m1: "fst ?s1 \<subseteq> fst ?s2" by (rule dfs_mono(2))
      have m2: "fst ?s2 \<subseteq> fst ?s3" by (rule dfs_mono(2))
      from a b m1 m2 False have "snd ?s3 = component \<union> (fst ?s3 - visited)" by auto
      with e show ?thesis by simp
    qed
  qed
next
  case (2 t order s)
  show ?case by simp
next
  case (3 t order x xs s)
  let ?s1 = "dfs t order x s"
  have m1: "fst s \<subseteq> fst ?s1" by (rule dfs_mono(1))
  have m2: "fst ?s1 \<subseteq> fst (dfs_each t order xs ?s1)" by (rule dfs_mono(2))
  from "3.IH" m1 m2 show ?case by auto
qed

lemma dfs_sound:
  "fst (dfs t order node_id s) \<subseteq> fst s \<union> (component_edges t order)\<^sup>* `` {node_id}"
  "fst (dfs_each t order xs s) \<subseteq> fst s \<union> (component_edges t order)\<^sup>* `` set xs"
proof (induction t order node_id s and t order xs s rule: dfs_dfs_each.induct)
  case (1 t order node_id visited component)
  let ?E = "component_edges t order"
  show ?case
  proof (cases "node_id \<in> visited")
    case True
    then show ?thesis by (simp add: dfs_visited)
  next
    case False
    show ?thesis
    proof (cases "find_entry t node_id")
      case None
      with False show ?thesis by (auto simp: dfs_no_entry)
    next
      case (Some entry)
      let ?s1 = "(insert node_id visited, insert node_id component)"
      let ?revs = "order (dict_get (get_reverse_dependencies t) node_id {})"
      let ?s2 = "dfs_each t order (dependencies entry) ?s1"
      let ?s3 = "dfs_each t order ?revs ?s2"
      have e: "dfs t order node_id (visited, component) = ?s3"
        using False Some by (simp add: dfs_entry)
      have step: "?E\<^sup>* `` (set (dependencies entry) \<union> set ?revs) \<subseteq> ?E\<^sup>* `` {node_id}"
      proof
        fix y assume "y \<in> ?E\<^sup>* `` (set (dependencies entry) \<union> set ?revs)"
        then obtain d where d: "d \<in> set (dependencies entry) \<union> set ?revs" "(d, y) \<in> ?E\<^sup>*" by auto
        from d(1) Some have "(node_id, d) \<in> ?E" by (auto simp: component_edges_def)
        with d(2) show "y \<in> ?E\<^sup>* `` {node_id}" by auto
      qed
      have a: "fst ?s2 \<subseteq> fst ?s1 \<union> ?E\<^sup>* `` set (dependencies entry)" by (rule "1.IH"(1) [OF False Some])
      have b: "fst ?s3 \<subseteq> fst ?s2 \<union> ?E\<^sup>* `` set ?revs" by (rule "1.IH"(2) [OF False Some])
      from a b step have "fst ?s3 \<subseteq> visited \<union> ?E\<^sup>* `` {node_id}" by auto
      with e show ?thesis by simp
    qed
  qed
next
  case (2 t order s)
  show ?case by simp
next
  case (3 t order x xs s)
  then show ?case by auto
qed

lemma dfs_new_closed:
  "\<forall>x \<in> fst (dfs t order node_id s) - fst s. component_edges t order `` {x} \<subseteq> fst (dfs t order node_id s)"
  "\<forall>x \<in> fst (dfs_each t order xs s) - fst s. component_edges t order `` {x} \<subseteq> fst (dfs_each t order xs s)"
proof (induction t order node_id s and t order xs s rule: dfs_dfs_each.induct)
  case (1 t order node_id visited component)
  let ?E = "component_edges t order"
  show ?case
  proof (cases "node_id \<in> visited")
    case True
    then show ?thesis by (simp add: dfs_visited)
  next
    case False
    show ?thesis
    proof (cases "find_entry t node_id")
      case None
      with False show ?thesis by (auto simp: component_edges_def dfs_no_entry)
    next
      case (Some entry)
      let ?s1 = "(insert node_id visited, insert node_id component)"
      let ?revs = "order (dict_get (get_reverse_dependencies t) node_id {})"
      let ?s2 = "dfs_each t order (dependencies entry) ?s1"
      let ?s3 = "dfs_each t order ?revs ?s2"
      have e: "dfs t order node_id (visited, component) = ?s3"
        using False Some by (simp add: dfs_entry)
      have m2: "fst ?s2 \<subseteq> fst ?s3" by (rule dfs_mono(2))
      have c1: "set (dependencies entry) \<subseteq> fst ?s2" by (rule dfs_contains(2))
      have c2: "set ?revs \<subseteq> fst ?s3" by (rule dfs_contains(2))
      have own: "?E `` {node_id} \<subseteq> fst ?s3"
        using Some c1 c2 m2 by (auto simp: component_edges_def)
      have a: "\<forall>x \<in> fst ?s2 - fst ?s1. ?E `` {x} \<subseteq> fst ?s2" by (rule "1.IH"(1) [OF False Some])
      have b: "\<forall>x \<in> fst ?s3 - fst ?s2. ?E `` {x} \<subseteq> fst ?s3" by (rule "1.IH"(2) [OF False Some])
      have "\<forall>x \<in> fst ?s3 - visited. ?E `` {x} \<subseteq> fst ?s3"
      proof
        fix x assume x: "x \<in> fst ?s3 - visited"
        show "?E `` {x} \<subseteq> fst ?s3"
        proof (cases "x = node_id")
          case True
          with own show ?thesis by simp
        next
          case n: False
          show ?thesis
          proof (cases "x \<in> fst ?s2")
            case True
            with n x have "x \<in> fst ?s2 - fst ?s1" by simp
            with a m2 show ?thesis by blast
          next
            case False
            with x b show ?thesis by blast
          qed
        qed
      qed
      with e show ?thesis by simp
    qed
  qed
next
  case (2 t order s)
  show ?case by simp
next
  case (3 t order x xs s)
  let ?E = "component_edges t order"
  let ?s1 = "dfs t order x s"
  let ?s2 = "dfs_each t order xs ?s1"
  have m: "fst ?s1 \<subseteq> fst ?s2" by (rule dfs_mono(2))
  from "3.IH"(1) m have a: "\<forall>y \<in> fst ?s1 - fst s. ?E `` {y} \<subseteq> fst ?s2" by blast
  from "3.IH"(2) have b: "\<forall>y \<in> fst ?s2 - fst ?s1. ?E `` {y} \<subseteq> fst ?s2" .
  have "dfs_each t order (x # xs) s = ?s2" by simp
  with a b show ?case by auto
qed

lemma sym_undirected_edges: "sym (undirected_edges t)"
  by (auto simp: sym_def undirected_edges_def)

lemma undirected_edges_ids:
  assumes "distinct (map entry_id (entries t))" "dependencies_closed t" "(x, y) \<in> undirected_edges t"
  shows "x \<in> entry_ids t \<and> y \<in> entry_ids t"
proof -
  have g: "\<And>a b. b \<in> dict_get (get_dependency_graph t) a {} \<Longrightarrow> a \<in> entry_ids t \<and> b \<in> entry_ids t"
  proof -
    fix a b assume "b \<in> dict_get (get_dependency_graph t) a {}"
    then obtain e where "e \<in> set (entries t)" "entry_id e = a" "b \<in> set (dependencies e)"
      using dependency_graph_lookup [OF assms(1), of a] by auto
    with assms(2) show "a \<in> entry_ids t \<and> b \<in> entry_ids t"
      by (auto simp: dependencies_closed_def entry_ids_def)
  qed
  from assms(3) have "y \<in> dict_get (get_dependency_graph t) x {} \<or> x \<in> dict_get (get_dependency_graph t) y {}"
    by (simp add: undirected_edges_def)
  with g show ?thesis by blast
qed

lemma undirected_rtrancl_ids:
  assumes "distinct (map entry_id (entries t))" "dependencies_closed t"
  shows "(x, y) \<in> (undirected_edges t)\<^sup>* \<Longrightarrow> x \<in> entry_ids t \<Longrightarrow> y \<in> entry_ids t"
  by (induction rule: rtrancl_induct) (auto dest: undirected_edges_ids [OF assms])

lemma component_edges_undirected:
  assumes d: "distinct (map entry_id (entries t))" and c: "dependencies_closed t" and i: "iterates order"
  shows "component_edges t order = undirected_edges t"
proof -
  have revs: "set (order (dict_get (get_reverse_dependencies t) x {})) =
      {entry_id e | e. e \<in> set (entries t) \<and> x \<in> set (dependencies e)}" for x
    using i finite_reverse_dependencies [of t x]
    by (simp add: iterates_def reverse_dependencies_lookup)
  have graph: "dict_get (get_dependency_graph t) x {} =
      {y. \<exists>e \<in> set (entries t). entry_id e = x \<and> y \<in> set (dependencies e)}" for x
    by (rule dependency_graph_lookup [OF d])
  have "(x, y) \<in> component_edges t order \<longleftrightarrow> (x, y) \<in> undirected_edges t" for x y
  proof
    assume "(x, y) \<in> component_edges t order"
    then obtain e where e: "find_entry t x = Some e"
      "y \<in> set (dependencies e) \<or> y \<in> set (order (dict_get (get_reverse_dependencies t) x {}))"
      by (auto simp: component_edges_def)
    from e(1) have m: "e \<in> set (entries t)" "entry_id e = x" by (simp_all add: find_entry_member)
    from e(2) show "(x, y) \<in> undirected_edges t"
    proof
      assume "y \<in> set (dependencies e)"
      with m have "y \<in> dict_get (get_dependency_graph t) x {}" by (auto simp: graph)
      then show ?thesis by (simp add: undirected_edges_def)
    next
      assume "y \<in> set (order (dict_get (get_reverse_dependencies t) x {}))"
      then have "x \<in> dict_get (get_dependency_graph t) y {}" by (auto simp: revs graph)
      then show ?thesis by (simp add: undirected_edges_def)
    qed
  next
    assume u: "(x, y) \<in> undirected_edges t"
    then have "x \<in> entry_ids t" using undirected_edges_ids [OF d c] by blast
    then obtain e where m: "e \<in> set (entries t)" "entry_id e = x" by (auto simp: entry_ids_def)
    then have f: "find_entry t x = Some e" using find_entry_distinct [OF d] by blast
    from u have "y \<in> dict_get (get_dependency_graph t) x {} \<or> x \<in> dict_get (get_dependency_graph t) y {}"
      by (simp add: undirected_edges_def)
    then show "(x, y) \<in> component_edges t order"
    proof
      assume "y \<in> dict_get (get_dependency_graph t) x {}"
      then obtain e' where e': "e' \<in> set (entries t)" "entry_id e' = x" "y \<in> set (dependencies e')"
        by (auto simp: graph)
      with m d have "e' = e" by (simp add: entry_id_unique)
      with e' f show ?thesis by (auto simp: component_edges_def)
    next
      assume "x \<in> dict_get (get_dependency_graph t) y {}"
      then have "y \<in> set (order (dict_get (get_reverse_dependencies t) x {}))"
        by (auto simp: revs graph)
      with f show ?thesis by (auto simp: component_edges_def)
    qed
  qed
  then show ?thesis by auto
qed

lemma sym_rtrancl_conv: "sym E \<Longrightarrow> (a, b) \<in> E\<^sup>* \<Longrightarrow> (b, a) \<in> E\<^sup>*"
  using sym_rtrancl [of E] by (auto simp: sym_def)

lemma class_eq:
  assumes "sym E" "(s, z) \<in> E\<^sup>*"
  shows "E\<^sup>* `` {s} = E\<^sup>* `` {z}"
proof -
  have "(z, s) \<in> E\<^sup>*" using assms by (rule sym_rtrancl_conv)
  with assms(2) show ?thesis by (auto intro: rtrancl_trans)
qed

lemma dfs_class:
  assumes E: "E = component_edges t order" and s: "sym E"
    and V: "\<forall>x \<in> V. E `` {x} \<subseteq> V" and n: "start \<notin> V"
  shows "dfs t order start (V, {}) = (V \<union> E\<^sup>* `` {start}, E\<^sup>* `` {start})"
proof -
  let ?r = "dfs t order start (V, {})"
  have sound: "fst ?r \<subseteq> V \<union> E\<^sup>* `` {start}"
    using dfs_sound(1) [of t order start "(V, {})"] by (simp add: E)
  have mono: "V \<subseteq> fst ?r" using dfs_mono(1) [of "(V, {})" t order start] by simp
  have new: "\<forall>x \<in> fst ?r - V. E `` {x} \<subseteq> fst ?r"
    using dfs_new_closed(1) [of t order start "(V, {})"] by (simp add: E)
  have closed: "\<forall>x \<in> fst ?r. \<forall>z. (x, z) \<in> E \<longrightarrow> z \<in> fst ?r"
  proof (intro ballI allI impI)
    fix x z assume x: "x \<in> fst ?r" and xz: "(x, z) \<in> E"
    show "z \<in> fst ?r"
    proof (cases "x \<in> V")
      case True
      with V xz have "z \<in> V" by blast
      with mono show ?thesis by blast
    next
      case False
      with x new xz show ?thesis by blast
    qed
  qed
  have start: "start \<in> fst ?r" by (rule dfs_contains(1))
  have reach: "E\<^sup>* `` {start} \<subseteq> fst ?r"
  proof
    fix y assume "y \<in> E\<^sup>* `` {start}"
    then have "(start, y) \<in> E\<^sup>*" by simp
    then show "y \<in> fst ?r" using start closed by (rule closed_rtrancl)
  qed
  have disj: "E\<^sup>* `` {start} \<inter> V = {}"
  proof (rule ccontr)
    assume "E\<^sup>* `` {start} \<inter> V \<noteq> {}"
    then obtain y where y: "(start, y) \<in> E\<^sup>*" "y \<in> V" by auto
    from s y(1) have p: "(y, start) \<in> E\<^sup>*" by (rule sym_rtrancl_conv)
    from V have c: "\<forall>x \<in> V. \<forall>z. (x, z) \<in> E \<longrightarrow> z \<in> V" by blast
    have "start \<in> V" by (rule closed_rtrancl [OF p y(2) c])
    with n show False by simp
  qed
  have f: "fst ?r = V \<union> E\<^sup>* `` {start}" using sound mono reach by blast
  have "snd ?r = fst ?r - V" using dfs_component(1) [of t order start "(V, {})"] by simp
  with f disj have "snd ?r = E\<^sup>* `` {start}" by blast
  with f show ?thesis by (simp add: prod_eq_iff)
qed

lemma components_loop_classes:
  assumes E: "E = component_edges t order" and s: "sym E"
  shows "V = \<Union>(set comps) \<Longrightarrow> (\<forall>c \<in> set comps. \<exists>a. c = E\<^sup>* `` {a}) \<Longrightarrow> distinct comps \<Longrightarrow>
     (\<forall>c \<in> set (components_loop t order rest V comps). \<exists>a. c = E\<^sup>* `` {a}) \<and>
     distinct (components_loop t order rest V comps) \<and>
     V \<union> entry_id ` set rest \<subseteq> \<Union>(set (components_loop t order rest V comps)) \<and>
     \<Union>(set (components_loop t order rest V comps)) \<subseteq> V \<union> E\<^sup>* `` (entry_id ` set rest)"
proof (induction rest arbitrary: V comps)
  case Nil
  then show ?case by simp
next
  case (Cons entry rest)
  show ?case
  proof (cases "entry_id entry \<in> V")
    case True
    have l: "components_loop t order (entry # rest) V comps = components_loop t order rest V comps"
      using True by simp
    have sub: "E\<^sup>* `` (entry_id ` set rest) \<subseteq> E\<^sup>* `` (entry_id ` set (entry # rest))"
      by (rule Image_mono) auto
    let ?L = "components_loop t order rest V comps"
    from Cons.IH [OF Cons.prems] have a: "\<forall>c \<in> set ?L. \<exists>a. c = E\<^sup>* `` {a}"
      and b: "distinct ?L" and c: "V \<union> entry_id ` set rest \<subseteq> \<Union>(set ?L)"
      and d: "\<Union>(set ?L) \<subseteq> V \<union> E\<^sup>* `` (entry_id ` set rest)" by blast+
    have c': "V \<union> entry_id ` set (entry # rest) \<subseteq> \<Union>(set ?L)" using c True by auto
    have d': "\<Union>(set ?L) \<subseteq> V \<union> E\<^sup>* `` (entry_id ` set (entry # rest))"
      using d sub by blast
    show ?thesis unfolding l using a b c' d' by blast
  next
    case False
    let ?C = "E\<^sup>* `` {entry_id entry}"
    have closedV: "\<forall>x \<in> V. E `` {x} \<subseteq> V"
    proof
      fix x assume "x \<in> V"
      then obtain c where c: "c \<in> set comps" "x \<in> c" using Cons.prems(1) by auto
      then obtain a where a: "c = E\<^sup>* `` {a}" using Cons.prems(2) by blast
      have "E `` {x} \<subseteq> c" using a c(2) by (auto intro: rtrancl_into_rtrancl)
      with c(1) Cons.prems(1) show "E `` {x} \<subseteq> V" by auto
    qed
    have d: "dfs t order (entry_id entry) (V, {}) = (V \<union> ?C, ?C)"
      by (rule dfs_class [OF E s closedV False])
    have l: "components_loop t order (entry # rest) V comps =
             components_loop t order rest (V \<union> ?C) (comps @ [?C])"
      using False by (simp add: d)
    have p1: "V \<union> ?C = \<Union>(set (comps @ [?C]))" using Cons.prems(1) by auto
    have p2: "\<forall>c \<in> set (comps @ [?C]). \<exists>a. c = E\<^sup>* `` {a}" using Cons.prems(2) by auto
    have "?C \<notin> set comps"
    proof
      assume "?C \<in> set comps"
      then have "?C \<subseteq> V" using Cons.prems(1) by auto
      moreover have "entry_id entry \<in> ?C" by simp
      ultimately show False using False by blast
    qed
    then have p3: "distinct (comps @ [?C])" using Cons.prems(3) by simp
    have sub: "V \<union> ?C \<union> E\<^sup>* `` (entry_id ` set rest) \<subseteq> V \<union> E\<^sup>* `` (entry_id ` set (entry # rest))"
      by auto
    have self: "entry_id entry \<in> ?C" by simp
    let ?L = "components_loop t order rest (V \<union> ?C) (comps @ [?C])"
    from Cons.IH [OF p1 p2 p3] have a: "\<forall>c \<in> set ?L. \<exists>a. c = E\<^sup>* `` {a}"
      and b: "distinct ?L" and c: "V \<union> ?C \<union> entry_id ` set rest \<subseteq> \<Union>(set ?L)"
      and d: "\<Union>(set ?L) \<subseteq> V \<union> ?C \<union> E\<^sup>* `` (entry_id ` set rest)" by blast+
    have c': "V \<union> entry_id ` set (entry # rest) \<subseteq> \<Union>(set ?L)" using c self by auto
    have d': "\<Union>(set ?L) \<subseteq> V \<union> E\<^sup>* `` (entry_id ` set (entry # rest))"
      using d sub by blast
    show ?thesis unfolding l using a b c' d' by blast
  qed
qed

lemma class_member: "sym E \<Longrightarrow> x \<in> E\<^sup>* `` {z} \<Longrightarrow> E\<^sup>* `` {z} = E\<^sup>* `` {x}"
  by (rule class_eq) simp_all

lemma components_partition_distinct:
  assumes d: "distinct (map entry_id (entries t))" and c: "dependencies_closed t" and i: "iterates order"
  shows "\<Union>(set (get_connected_components order t)) = entry_ids t \<and>
     distinct (get_connected_components order t) \<and>
     (\<forall>a \<in> set (get_connected_components order t). \<forall>b \<in> set (get_connected_components order t).
        a \<noteq> b \<longrightarrow> a \<inter> b = {}) \<and>
     (\<forall>x \<in> entry_ids t. \<exists>!a. a \<in> set (get_connected_components order t) \<and> x \<in> a) \<and>
     (\<forall>x \<in> entry_ids t. \<forall>y \<in> entry_ids t.
        (\<exists>a \<in> set (get_connected_components order t). x \<in> a \<and> y \<in> a)
          \<longleftrightarrow> (x, y) \<in> (undirected_edges t)\<^sup>*)"
proof -
  let ?E = "undirected_edges t"
  let ?cs = "get_connected_components order t"
  have E: "?E = component_edges t order" by (rule component_edges_undirected [OF d c i, symmetric])
  have s: "sym ?E" by (rule sym_undirected_edges)
  have "(\<forall>a \<in> set (components_loop t order (entries t) {} []). \<exists>z. a = ?E\<^sup>* `` {z}) \<and>
     distinct (components_loop t order (entries t) {} []) \<and>
     {} \<union> entry_id ` set (entries t) \<subseteq> \<Union>(set (components_loop t order (entries t) {} [])) \<and>
     \<Union>(set (components_loop t order (entries t) {} [])) \<subseteq> {} \<union> ?E\<^sup>* `` (entry_id ` set (entries t))"
    by (rule components_loop_classes [OF E s]) simp_all
  then have classes: "\<forall>a \<in> set ?cs. \<exists>z. a = ?E\<^sup>* `` {z}"
    and dist: "distinct ?cs"
    and lower: "entry_ids t \<subseteq> \<Union>(set ?cs)"
    and upper: "\<Union>(set ?cs) \<subseteq> ?E\<^sup>* `` entry_ids t"
    by (simp_all add: get_connected_components_def entry_ids_def)
  have "?E\<^sup>* `` entry_ids t \<subseteq> entry_ids t"
    using undirected_rtrancl_ids [OF d c] by blast
  with lower upper have union: "\<Union>(set ?cs) = entry_ids t" by blast
  have same: "a = b" if "a \<in> set ?cs" "b \<in> set ?cs" "x \<in> a" "x \<in> b" for a b x
  proof -
    from classes that(1) obtain za where za: "a = ?E\<^sup>* `` {za}" by blast
    from classes that(2) obtain zb where zb: "b = ?E\<^sup>* `` {zb}" by blast
    have "a = ?E\<^sup>* `` {x}" using class_member [OF s, of x za] that(3) za by simp
    moreover have "b = ?E\<^sup>* `` {x}" using class_member [OF s, of x zb] that(4) zb by simp
    ultimately show ?thesis by simp
  qed
  have disj: "\<forall>a \<in> set ?cs. \<forall>b \<in> set ?cs. a \<noteq> b \<longrightarrow> a \<inter> b = {}"
  proof (intro ballI impI)
    fix a b assume ab: "a \<in> set ?cs" "b \<in> set ?cs" "a \<noteq> b"
    show "a \<inter> b = {}"
    proof (rule ccontr)
      assume "a \<inter> b \<noteq> {}"
      then obtain x where "x \<in> a" "x \<in> b" by blast
      with ab(1,2) have "a = b" by (rule same)
      with ab(3) show False by simp
    qed
  qed
  have uniq: "\<forall>x \<in> entry_ids t. \<exists>!a. a \<in> set ?cs \<and> x \<in> a"
  proof
    fix x assume "x \<in> entry_ids t"
    with union obtain a where a: "a \<in> set ?cs" "x \<in> a" by blast
    show "\<exists>!a. a \<in> set ?cs \<and> x \<in> a"
    proof (rule ex1I [of _ a])
      show "a \<in> set ?cs \<and> x \<in> a" using a by simp
    next
      fix b assume "b \<in> set ?cs \<and> x \<in> b"
      then show "b = a" using a same by blast
    qed
  qed
  have conn: "\<forall>x \<in> entry_ids t. \<forall>y \<in> entry_ids t.
        (\<exists>a \<in> set ?cs. x \<in> a \<and> y \<in> a) \<longleftrightarrow> (x, y) \<in> ?E\<^sup>*"
  proof (intro ballI iffI)
    fix x y assume "\<exists>a \<in> set ?cs. x \<in> a \<and> y \<in> a"
    then obtain a where a: "a \<in> set ?cs" "x \<in> a" "y \<in> a" by blast
    with classes obtain z where z: "a = ?E\<^sup>* `` {z}" by blast
    have "a = ?E\<^sup>* `` {x}" using class_member [OF s, of x z] a(2) z by simp
    with a(3) show "(x, y) \<in> ?E\<^sup>*" by simp
  next
    fix x y assume x: "x \<in> entry_ids t" and p: "(x, y) \<in> ?E\<^sup>*"
    from x union obtain a where a: "a \<in> set ?cs" "x \<in> a" by blast
    with classes obtain z where z: "a = ?E\<^sup>* `` {z}" by blast
    have "a = ?E\<^sup>* `` {x}" using class_member [OF s, of x z] a(2) z by simp
    with p have "y \<in> a" by simp
    with a show "\<exists>a \<in> set ?cs. x \<in> a \<and> y \<in> a" by blast
  qed
  show ?thesis by (intro conjI union dist disj uniq conn)
qed

text \<open>
  C7. For every trace the library makes whose dependency ids all refer to entries of the trace,
  and any order of iterating sets, \<^verbatim>\<open>get_connected_components\<close> partitions the entry ids:
  the union of the components is the set of entry ids, no component is listed twice, different
  components are disjoint, every entry id lies in exactly one component, and two entry ids share
  a component exactly when they are connected in the undirected view of the dependency graph.
\<close>

theorem connected_components_partition:
  assumes b: "built t" and c: "dependencies_closed t" and i: "iterates order"
  shows "\<Union>(set (get_connected_components order t)) = entry_ids t \<and>
     distinct (get_connected_components order t) \<and>
     (\<forall>a \<in> set (get_connected_components order t). \<forall>b \<in> set (get_connected_components order t).
        a \<noteq> b \<longrightarrow> a \<inter> b = {}) \<and>
     (\<forall>x \<in> entry_ids t. \<exists>!a. a \<in> set (get_connected_components order t) \<and> x \<in> a) \<and>
     (\<forall>x \<in> entry_ids t. \<forall>y \<in> entry_ids t.
        (\<exists>a \<in> set (get_connected_components order t). x \<in> a \<and> y \<in> a)
          \<longleftrightarrow> (x, y) \<in> (undirected_edges t)\<^sup>*)"
  by (rule components_partition_distinct [OF built_distinct [OF b] c i])

lemma two_scopes_entries:
  "entries (trace (run_ops two_scopes)) =
     [\<lparr>entry_id = ''t0'', strategy = 0, entry_value = VInt 80, dependencies = [], metadata = []\<rparr>,
      \<lparr>entry_id = ''t1'', strategy = 0, entry_value = VInt 70, dependencies = [''t0''], metadata = []\<rparr>,
      \<lparr>entry_id = ''t2'', strategy = 1, entry_value = VStr ''ab'', dependencies = [], metadata = []\<rparr>]"
  by (simp add: two_scopes_def run_ops_def draw_def create_traceable_draw_def empty_trace_def
      add_entry_def Let_def push_dependencies_def pop_dependencies_def
      trace_id_of_0 trace_id_of_1 trace_id_of_2)

lemma iterates_sorted: "iterates sorted_list_of_set"
  by (simp add: iterates_def)

lemma two_scopes_components:
  "get_connected_components sorted_list_of_set (trace (run_ops two_scopes)) = [{''t0'', ''t1''}, {''t2''}]"
  by code_simp

theorem connected_components_partition_witness:
  "built (trace (run_ops two_scopes)) \<and>
   dependencies_closed (trace (run_ops two_scopes)) \<and>
   iterates sorted_list_of_set \<and>
   get_connected_components sorted_list_of_set (trace (run_ops two_scopes)) = [{''t0'', ''t1''}, {''t2''}] \<and>
   \<Union>(set (get_connected_components sorted_list_of_set (trace (run_ops two_scopes))))
     = entry_ids (trace (run_ops two_scopes)) \<and>
   (''t0'', ''t1'') \<in> (undirected_edges (trace (run_ops two_scopes)))\<^sup>* \<and>
   (''t0'', ''t2'') \<notin> (undirected_edges (trace (run_ops two_scopes)))\<^sup>*"
proof -
  let ?t = "trace (run_ops two_scopes)"
  have d: "distinct (map entry_id (entries ?t))" by (rule built_distinct [OF built_run_ops])
  have bt: "built ?t" by (rule built_run_ops)
  have c: "dependencies_closed ?t" by (simp add: dependencies_closed_def entry_ids_def two_scopes_entries)
  have ids: "entry_ids ?t = {''t0'', ''t1'', ''t2''}" by (simp add: entry_ids_def two_scopes_entries)
  note p = connected_components_partition [OF bt c iterates_sorted]
  from p have u: "\<Union>(set (get_connected_components sorted_list_of_set ?t)) = entry_ids ?t" by blast
  from p have conn: "\<forall>x \<in> entry_ids ?t. \<forall>y \<in> entry_ids ?t.
        (\<exists>a \<in> set (get_connected_components sorted_list_of_set ?t). x \<in> a \<and> y \<in> a)
          \<longleftrightarrow> (x, y) \<in> (undirected_edges ?t)\<^sup>*" by blast
  have a: "(''t0'', ''t1'') \<in> (undirected_edges ?t)\<^sup>*"
    using conn [rule_format, of "''t0''" "''t1''"] by (simp add: ids two_scopes_components)
  have b: "(''t0'', ''t2'') \<notin> (undirected_edges ?t)\<^sup>*"
    using conn [rule_format, of "''t0''" "''t2''"] by (simp add: ids two_scopes_components)
  from bt c iterates_sorted two_scopes_components u a b show ?thesis by blast
qed

section \<open>Dependent variables\<close>

lemma chain_trace_eq:
  "chain_trace = \<lparr>entries =
     [\<lparr>entry_id = ''t0'', strategy = 0, entry_value = VInt 1, dependencies = [], metadata = []\<rparr>,
      \<lparr>entry_id = ''t1'', strategy = 0, entry_value = VInt 2, dependencies = [''t0''], metadata = []\<rparr>,
      \<lparr>entry_id = ''t2'', strategy = 0, entry_value = VInt 3, dependencies = [''t1''], metadata = []\<rparr>],
     variable_assignments = [(''a'', ''t0''), (''c'', ''t2'')], next_id = 3\<rparr>"
  by (simp add: chain_trace_def add_entry_def empty_trace_def assign_variable_def Let_def
      trace_id_of_0 trace_id_of_1 trace_id_of_2)

lemma chain_reverse: "get_reverse_dependencies chain_trace = [(''t0'', {''t1''}), (''t1'', {''t2''})]"
  by (simp add: chain_trace_eq get_reverse_dependencies_def add_reverse_def dict_get_def Let_def)

text \<open>
  C4. In the chain \<open>t0\<close>, \<open>t1\<close>, \<open>t2\<close> with \<open>a\<close> bound to \<open>t0\<close>, \<open>c\<close> bound to \<open>t2\<close>
  and \<open>t1\<close> unnamed, \<^verbatim>\<open>get_dependent_variables("a")\<close> returns the empty set, although \<open>c\<close>
  is bound to an id in the transitive closure of the reverse graph from \<open>t0\<close>: the dependents
  of the unnamed \<open>t1\<close> are not traversed.
\<close>

theorem dependent_variables_skip_unbound:
  "get_dependent_variables 5 sorted_list_of_set chain_trace ''a'' = Some {} \<and>
   ''c'' \<in> spec_dependent_variables chain_trace ''a''"
proof
  show "get_dependent_variables 5 sorted_list_of_set chain_trace ''a'' = Some {}"
    by code_simp
  have 1: "(''t0'', ''t1'') \<in> reverse_edges chain_trace"
    by (simp add: reverse_edges_def chain_reverse dict_get_def)
  have 2: "(''t1'', ''t2'') \<in> reverse_edges chain_trace"
    by (simp add: reverse_edges_def chain_reverse dict_get_def)
  from 1 2 have "(''t0'', ''t2'') \<in> (reverse_edges chain_trace)\<^sup>+" by (rule trancl_into_trancl2 [OF _ r_into_trancl])
  moreover have "(''c'', ''t2'') \<in> set (variable_assignments chain_trace)" by (simp add: chain_trace_eq)
  moreover have "map_of (variable_assignments chain_trace) ''a'' = Some ''t0''" by (simp add: chain_trace_eq)
  ultimately show "''c'' \<in> spec_dependent_variables chain_trace ''a''"
    by (auto simp: spec_dependent_variables_def)
qed

section \<open>Dependency depth\<close>

lemma diamond_trace_entries:
  "entries diamond_trace =
     [\<lparr>entry_id = ''t0'', strategy = 0, entry_value = VInt 1, dependencies = [], metadata = []\<rparr>,
      \<lparr>entry_id = ''t1'', strategy = 0, entry_value = VInt 2, dependencies = [''t0''], metadata = []\<rparr>,
      \<lparr>entry_id = ''t2'', strategy = 0, entry_value = VInt 3, dependencies = [''t0'', ''t1''], metadata = []\<rparr>,
      \<lparr>entry_id = ''t3'', strategy = 0, entry_value = VInt 4, dependencies = [''t0'', ''t1'', ''t2''], metadata = []\<rparr>,
      \<lparr>entry_id = ''t4'', strategy = 0, entry_value = VInt 5, dependencies = [''t0'', ''t1''], metadata = []\<rparr>]"
  by code_simp

text \<open>
  C5. On the five entries of \<open>diamond_trace\<close>, with sets iterated in ascending order, the keys
  computed by \<^verbatim>\<open>get_depth\<close> are 0, 1, 2, 2, 2, so the entries are processed in the order
  \<open>t0\<close>, \<open>t1\<close>, \<open>t2\<close>, \<open>t3\<close>, \<open>t4\<close>; their depths are 0, 1, 2, 3, 2. The entry \<open>t3\<close> gets
  the key 2 although its dependency \<open>t2\<close> has the key 2, and it is processed before \<open>t4\<close>,
  whose depth is smaller.
\<close>

theorem depth_order_shared_visited:
  "map entry_id (sort_by_dependency_depth (make_shrinker diamond_trace) sorted_list_of_set (entries diamond_trace))
     = [''t0'', ''t1'', ''t2'', ''t3'', ''t4''] \<and>
   map (\<lambda>e. fst (get_depth (dependency_graph (make_shrinker diamond_trace)) sorted_list_of_set (entry_id e) {}))
     (entries diamond_trace) = [0, 1, 2, 2, 2] \<and>
   map (\<lambda>e. spec_depth 5 (dependency_graph (make_shrinker diamond_trace)) (entry_id e))
     (entries diamond_trace) = [0, 1, 2, 3, 2] \<and>
   ''t2'' \<in> dict_get (dependency_graph (make_shrinker diamond_trace)) ''t3'' {}"
  by code_simp

section \<open>Shrinking a failing example\<close>

lemma individual_values_loop_result:
  "individual_values_loop t test_func es = t \<or>
   (test_trace (individual_values_loop t test_func es) test_func \<and>
    (\<exists>eid v. individual_values_loop t test_func es = create_modified_trace t eid v))"
  by (induction es) (auto simp: Let_def)

lemma roots_loop_result:
  "roots_loop t test_func rs = Inr (Some t') \<Longrightarrow>
   test_trace t' test_func \<and> (\<exists>eid v. t' = create_modified_trace t eid v)"
  by (induction rs) (auto simp: Let_def split: option.splits if_splits)

lemma roots_loop_returns:
  "set rs \<subseteq> entry_ids t \<Longrightarrow> \<exists>res. roots_loop t test_func rs = Inr res"
proof (induction rs)
  case Nil
  then show ?case by simp
next
  case (Cons r rs)
  then have "r \<in> entry_id ` set (entries t)" by (simp add: entry_ids_def)
  then obtain e where "find_entry t r = Some e"
    by (cases "find_entry t r") (auto simp: find_entry_def find_None_iff)
  with Cons show ?case by (auto simp: Let_def)
qed

lemma shrink_component_result:
  "shrink_component self order t component test_func = Inr (Some t') \<Longrightarrow>
   test_trace t' test_func \<and> (\<exists>eid v. t' = create_modified_trace t eid v)"
  by (auto simp: shrink_component_def Let_def split: if_splits dest: roots_loop_result)

lemma shrink_component_returns:
  "set (order component) \<subseteq> entry_ids t \<Longrightarrow>
   \<exists>res. shrink_component self order t component test_func = Inr res"
proof -
  assume a: "set (order component) \<subseteq> entry_ids t"
  let ?roots = "filter (\<lambda>tid. dict_get (dependency_graph self) tid {} = {}) (order component)"
  from a have "set ?roots \<subseteq> entry_ids t" by auto
  then obtain res where "roots_loop t test_func ?roots = Inr res"
    using roots_loop_returns by blast
  then show ?thesis by (auto simp: shrink_component_def Let_def)
qed

lemma chains_loop_result:
  "chains_loop self order t test_func cs = Inr (Some t') \<Longrightarrow>
   test_trace t' test_func \<and> (\<exists>eid v. t' = create_modified_trace t eid v)"
proof (induction cs)
  case Nil
  then show ?case by simp
next
  case (Cons c cs)
  show ?case
  proof (cases "card c > 1")
    case False
    with Cons show ?thesis by simp
  next
    case True
    show ?thesis
    proof (cases "shrink_component self order t c test_func")
      case (Inl e)
      with True Cons.prems show ?thesis by simp
    next
      case (Inr res)
      show ?thesis
      proof (cases res)
        case None
        with Inr True Cons show ?thesis by simp
      next
        case (Some t'')
        with Inr True Cons.prems have "t'' = t'" by simp
        with Inr Some show ?thesis using shrink_component_result by blast
      qed
    qed
  qed
qed

lemma chains_loop_returns:
  "\<forall>c \<in> set cs. set (order c) \<subseteq> entry_ids t \<Longrightarrow>
   \<exists>res. chains_loop self order t test_func cs = Inr res"
proof (induction cs)
  case Nil
  then show ?case by simp
next
  case (Cons c cs)
  then obtain res where r: "shrink_component self order t c test_func = Inr res"
    using shrink_component_returns [of order c t self test_func] by auto
  from Cons obtain res' where "chains_loop self order t test_func cs = Inr res'" by auto
  with r show ?case by (cases res) auto
qed

lemma optional_loop_result:
  "optional_loop self t test_func es = Some t' \<Longrightarrow> test_trace t' test_func"
  by (induction es) (auto simp: Let_def remove_entry_def split: if_splits)

lemma dependencies_closed_map:
  "dependencies_closed t \<longleftrightarrow> (\<forall>ds \<in> set (map dependencies (entries t)). set ds \<subseteq> set (map entry_id (entries t)))"
  by (auto simp: dependencies_closed_def entry_ids_def)

lemma entry_ids_modified: "entry_ids (create_modified_trace t eid v) = entry_ids t"
  by (simp only: entry_ids_map) (simp add: create_modified_trace_def set_first_value_ids)

lemma dependencies_closed_modified:
  "dependencies_closed (create_modified_trace t eid v) = dependencies_closed t"
  by (simp only: dependencies_closed_map) (simp add: create_modified_trace_def set_first_value_ids set_first_value_deps)

lemma component_edges_ids:
  assumes c: "dependencies_closed t" and i: "iterates order" and e: "(x, y) \<in> component_edges t order"
  shows "x \<in> entry_ids t \<and> y \<in> entry_ids t"
proof -
  from e obtain en where en: "find_entry t x = Some en"
    "y \<in> set (dependencies en) \<or> y \<in> set (order (dict_get (get_reverse_dependencies t) x {}))"
    by (auto simp: component_edges_def)
  from en(1) have m: "en \<in> set (entries t)" "entry_id en = x" by (simp_all add: find_entry_member)
  then have x: "x \<in> entry_ids t" by (auto simp: entry_ids_def)
  have revs: "set (order (dict_get (get_reverse_dependencies t) x {})) =
      {entry_id e | e. e \<in> set (entries t) \<and> x \<in> set (dependencies e)}"
    using i finite_reverse_dependencies [of t x]
    by (simp add: iterates_def reverse_dependencies_lookup)
  from en(2) have "y \<in> entry_ids t"
  proof
    assume "y \<in> set (dependencies en)"
    with c m(1) show ?thesis by (auto simp: dependencies_closed_def)
  next
    assume "y \<in> set (order (dict_get (get_reverse_dependencies t) x {}))"
    then show ?thesis by (auto simp: revs entry_ids_def)
  qed
  with x show ?thesis by simp
qed

lemma component_edges_rtrancl_ids:
  assumes "dependencies_closed t" "iterates order"
  shows "(x, y) \<in> (component_edges t order)\<^sup>* \<Longrightarrow> x \<in> entry_ids t \<Longrightarrow> y \<in> entry_ids t"
  by (induction rule: rtrancl_induct) (auto dest: component_edges_ids [OF assms])

lemma components_loop_subset:
  assumes c: "dependencies_closed t" and i: "iterates order"
  shows "\<forall>a \<in> set comps. a \<subseteq> entry_ids t \<Longrightarrow> entry_id ` set rest \<subseteq> entry_ids t \<Longrightarrow>
     \<forall>a \<in> set (components_loop t order rest V comps). a \<subseteq> entry_ids t"
proof (induction rest arbitrary: V comps)
  case Nil
  then show ?case by simp
next
  case (Cons entry rest)
  from Cons.prems(2) have q: "entry_id ` set rest \<subseteq> entry_ids t" by simp
  show ?case
  proof (cases "entry_id entry \<in> V")
    case True
    then have "components_loop t order (entry # rest) V comps = components_loop t order rest V comps"
      by simp
    with Cons.IH [OF Cons.prems(1) q] show ?thesis by simp
  next
    case False
    obtain V1 comp where d: "dfs t order (entry_id entry) (V, {}) = (V1, comp)"
      by (cases "dfs t order (entry_id entry) (V, {})")
    have 1: "comp = V1 - V" using dfs_component(1) [of t order "entry_id entry" "(V, {})"] d by simp
    have 2: "V1 \<subseteq> V \<union> (component_edges t order)\<^sup>* `` {entry_id entry}"
      using dfs_sound(1) [of t order "entry_id entry" "(V, {})"] d by simp
    have start: "entry_id entry \<in> entry_ids t" using Cons.prems(2) by simp
    have "comp \<subseteq> entry_ids t"
    proof
      fix y assume "y \<in> comp"
      with 1 2 have "(entry_id entry, y) \<in> (component_edges t order)\<^sup>*" by blast
      then show "y \<in> entry_ids t" using start by (rule component_edges_rtrancl_ids [OF c i])
    qed
    with Cons.prems(1) have p: "\<forall>a \<in> set (comps @ [comp]). a \<subseteq> entry_ids t" by simp
    have "components_loop t order (entry # rest) V comps = components_loop t order rest V1 (comps @ [comp])"
      using False d by simp
    with Cons.IH [OF p q] show ?thesis by simp
  qed
qed

lemma connected_components_subset:
  "dependencies_closed t \<Longrightarrow> iterates order \<Longrightarrow>
   \<forall>a \<in> set (get_connected_components order t). a \<subseteq> entry_ids t"
  unfolding get_connected_components_def
  by (rule components_loop_subset) (simp_all add: entry_ids_def)

lemma shrink_dependency_chains_returns:
  assumes c: "dependencies_closed t" and i: "iterates order"
  shows "\<exists>res. shrink_dependency_chains self order t test_func = Inr res"
proof -
  have "\<forall>a \<in> set (get_connected_components order t). set (order a) \<subseteq> entry_ids t"
  proof
    fix a assume "a \<in> set (get_connected_components order t)"
    then have s: "a \<subseteq> entry_ids t" using connected_components_subset [OF c i] by blast
    then have "finite a" using finite_entry_ids finite_subset by blast
    with i have "set (order a) = a" by (simp add: iterates_def)
    with s show "set (order a) \<subseteq> entry_ids t" by simp
  qed
  then show ?thesis unfolding shrink_dependency_chains_def by (rule chains_loop_returns)
qed

lemma shrink_individual_values_result:
  "shrink_individual_values self order t test_func = Some t' \<Longrightarrow>
   test_trace t' test_func \<and> (\<exists>eid v. t' = create_modified_trace t eid v)"
  using individual_values_loop_result [of t test_func "sort_by_dependency_depth self order (entries t)"]
  by (auto simp: shrink_individual_values_def Let_def split: if_splits)

text \<open>
  Whatever the trace: if the reconstructed value makes the predicate raise and
  \<^verbatim>\<open>shrink_failing_example\<close> returns a pair, the pair is a trace with its reconstructed value,
  and that value still makes the predicate raise.
\<close>

lemma shrink_failing_example_result:
  assumes fails: "test_trace t test_func"
    and r: "shrink_failing_example (make_shrinker t) order test_func = Inr (v, t')"
  shows "v = reconstruct_value t' \<and> test_trace t' test_func"
proof -
  let ?self = "make_shrinker t"
  define t1 where "t1 = (case shrink_individual_values ?self order t test_func of
                             Some shrunk_trace \<Rightarrow> shrunk_trace | None \<Rightarrow> t)"
  have t1: "test_trace t1 test_func"
  proof (cases "shrink_individual_values ?self order t test_func")
    case None
    with fails show ?thesis by (simp add: t1_def)
  next
    case (Some s)
    with shrink_individual_values_result [OF Some] show ?thesis
      by (auto simp: t1_def)
  qed
  have st: "sh_trace ?self = t" by (simp add: make_shrinker_def)
  from r obtain chained where ch: "shrink_dependency_chains ?self order t1 test_func = Inr chained"
    unfolding shrink_failing_example_def Let_def st t1_def [symmetric]
    by (cases "shrink_dependency_chains ?self order t1 test_func") auto
  define t2 where "t2 = (case chained of Some shrunk_trace \<Rightarrow> shrunk_trace | None \<Rightarrow> t1)"
  have t2: "test_trace t2 test_func"
  proof (cases chained)
    case None
    with t1 show ?thesis by (simp add: t2_def)
  next
    case (Some s)
    with ch have "chains_loop ?self order t1 test_func (get_connected_components order t1) = Inr (Some s)"
      by (simp add: shrink_dependency_chains_def)
    then have "test_trace s test_func" using chains_loop_result by blast
    with Some show ?thesis by (simp add: t2_def)
  qed
  define t3 where "t3 = (case shrink_optional_dependencies ?self t2 test_func of
                            Some shrunk_trace \<Rightarrow> shrunk_trace | None \<Rightarrow> t2)"
  have t3: "test_trace t3 test_func"
  proof (cases "shrink_optional_dependencies ?self t2 test_func")
    case None
    with t2 show ?thesis by (simp add: t3_def)
  next
    case (Some s)
    then have "test_trace s test_func"
      unfolding shrink_optional_dependencies_def by (rule optional_loop_result)
    with Some show ?thesis by (simp add: t3_def)
  qed
  have "shrink_failing_example ?self order test_func = Inr (reconstruct_value t3, t3)"
    unfolding t3_def t2_def shrink_failing_example_def Let_def st t1_def [symmetric]
    using ch by simp
  with r t3 show ?thesis by auto
qed

text \<open>
  On a trace whose dependency ids all refer to entries of the trace, under any order of
  iterating sets, every lookup of the second phase finds its entry, and a pair is returned.
\<close>

lemma shrink_failing_example_returns:
  assumes fails: "test_trace t test_func" and c: "dependencies_closed t" and i: "iterates order"
  shows "\<exists>t'. shrink_failing_example (make_shrinker t) order test_func = Inr (reconstruct_value t', t')
           \<and> test_trace t' test_func"
proof -
  let ?self = "make_shrinker t"
  define t1 where "t1 = (case shrink_individual_values ?self order t test_func of
                             Some shrunk_trace \<Rightarrow> shrunk_trace | None \<Rightarrow> t)"
  have t1: "dependencies_closed t1"
  proof (cases "shrink_individual_values ?self order t test_func")
    case None
    with c show ?thesis by (simp add: t1_def)
  next
    case (Some s)
    with shrink_individual_values_result [OF Some] c show ?thesis
      by (auto simp: t1_def dependencies_closed_modified)
  qed
  then obtain chained where ch: "shrink_dependency_chains ?self order t1 test_func = Inr chained"
    using shrink_dependency_chains_returns [OF _ i] by blast
  have st: "sh_trace ?self = t" by (simp add: make_shrinker_def)
  obtain v t' where r: "shrink_failing_example ?self order test_func = Inr (v, t')"
    unfolding shrink_failing_example_def Let_def st t1_def [symmetric]
    using ch by simp
  from shrink_failing_example_result [OF fails r] r show ?thesis by auto
qed

lemma shrink_failing_example_returns_nested_draws:
  "test_trace (trace (run_ops nested_draws)) fails_when_large \<and>
   dependencies_closed (trace (run_ops nested_draws)) \<and>
   iterates sorted_list_of_set \<and>
   (\<exists>t'. shrink_failing_example (make_shrinker (trace (run_ops nested_draws))) sorted_list_of_set
            fails_when_large = Inr (reconstruct_value t', t')
       \<and> test_trace t' fails_when_large)"
proof -
  have a: "test_trace (trace (run_ops nested_draws)) fails_when_large" by code_simp
  have b: "dependencies_closed (trace (run_ops nested_draws))"
    by (simp add: dependencies_closed_def entry_ids_def nested_draws_entries)
  from a b iterates_sorted show ?thesis
    using shrink_failing_example_returns [OF a b iterates_sorted] by blast
qed

text \<open>The trace \<open>ghost_trace\<close> is made by one call of \<^verbatim>\<open>add_entry\<close> on the empty trace; its one
  entry \<open>t0\<close> has the value 5 and the dependency list \<open>[ghost]\<close>, and no entry has the id
  \<open>ghost\<close>.\<close>

lemma ghost_trace_built: "built ghost_trace"
  unfolding ghost_trace_def by (intro built_add built_empty)

lemma ghost_trace_entries:
  "entries ghost_trace =
     [\<lparr>entry_id = ''t0'', strategy = 0, entry_value = VInt 5, dependencies = [''ghost''], metadata = []\<rparr>]"
  by (simp add: ghost_trace_def add_entry_def empty_trace_def Let_def trace_id_of_0)

lemma ghost_trace_not_closed: "\<not> dependencies_closed ghost_trace"
  by (simp add: dependencies_closed_def entry_ids_def ghost_trace_entries)

text \<open>
  C1. On \<open>ghost_trace\<close>, with a predicate that raises on every value, the reconstructed value of
  the input makes the predicate raise, and \<^verbatim>\<open>shrink_failing_example\<close> returns no pair: the
  second phase takes the id \<open>ghost\<close> as a root of the component of \<open>t0\<close> and looks its entry up
  with \<^verbatim>\<open>next\<close> without a default, which raises \<^verbatim>\<open>StopIteration\<close>.
\<close>

theorem shrink_failing_example_raises_stop_iteration:
  "test_trace ghost_trace always_raises \<and>
   shrink_failing_example (make_shrinker ghost_trace) sorted_list_of_set always_raises = Inl StopIteration \<and>
   (\<forall>r. shrink_failing_example (make_shrinker ghost_trace) sorted_list_of_set always_raises \<noteq> Inr r)"
proof -
  have a: "test_trace ghost_trace always_raises" by code_simp
  have b: "shrink_failing_example (make_shrinker ghost_trace) sorted_list_of_set always_raises = Inl StopIteration"
    by code_simp
  from a b show ?thesis by simp
qed

section \<open>The input trace is not mutated\<close>

lemma frame_refl: "frame h h"
  by (simp add: frame_def)

lemma frame_trans: "frame h1 h2 \<Longrightarrow> frame h2 h3 \<Longrightarrow> frame h1 h3"
  by (auto simp: frame_def)

lemma frame_new_entry: "new_entry h e = (h', y) \<Longrightarrow> frame h h' \<and> y = next_addr h"
  by (auto simp: new_entry_def frame_def)

lemma frame_new_trace_obj: "new_trace_obj h t = (h', y) \<Longrightarrow> frame h h' \<and> y = next_addr h"
  by (auto simp: new_trace_obj_def frame_def)

lemma frame_set_entry: "next_addr h0 \<le> x \<Longrightarrow> frame h0 h \<Longrightarrow> frame h0 (set_entry h x e)"
  by (auto simp: set_entry_def frame_def)

lemma frame_set_trace_obj: "next_addr h0 \<le> a \<Longrightarrow> frame h0 h \<Longrightarrow> frame h0 (set_trace_obj h a t)"
  by (auto simp: set_trace_obj_def frame_def)

lemma frame_next: "frame h h' \<Longrightarrow> next_addr h \<le> next_addr h'"
  by (simp add: frame_def)

lemma frame_copy_entries:
  "copy_entries h xs = (h', ys) \<Longrightarrow> frame h h' \<and> (\<forall>y \<in> set ys. next_addr h \<le> y)"
proof (induction xs arbitrary: h h' ys)
  case Nil
  then show ?case by (simp add: frame_refl)
next
  case (Cons x xs)
  obtain h1 y where n: "new_entry h (entry_at h x) = (h1, y)" by (cases "new_entry h (entry_at h x)")
  obtain h2 zs where c: "copy_entries h1 xs = (h2, zs)" by (cases "copy_entries h1 xs")
  from Cons.prems n c have r: "h' = h2" "ys = y # zs" by simp_all
  from frame_new_entry [OF n] have f1: "frame h h1" and y: "y = next_addr h" by simp_all
  from Cons.IH [OF c] have f2: "frame h1 h2" and z: "\<forall>z \<in> set zs. next_addr h1 \<le> z" by simp_all
  from f1 have "next_addr h \<le> next_addr h1" by (rule frame_next)
  with z have "\<forall>z \<in> set zs. next_addr h \<le> z" by auto
  with y r frame_trans [OF f1 f2] show ?case by simp
qed

lemma frame_deepcopy:
  "deepcopy h a = (h', new_trace) \<Longrightarrow>
   frame h h' \<and> next_addr h \<le> new_trace \<and> (\<forall>y \<in> set (obj_entries (trace_at h' new_trace)). next_addr h \<le> y)"
proof -
  assume d: "deepcopy h a = (h', new_trace)"
  obtain h1 ys where c: "copy_entries h (obj_entries (trace_at h a)) = (h1, ys)"
    by (cases "copy_entries h (obj_entries (trace_at h a))")
  with d have n: "new_trace_obj h1 ((trace_at h a)\<lparr>obj_entries := ys\<rparr>) = (h', new_trace)"
    by (simp add: deepcopy_def)
  from frame_copy_entries [OF c] have f1: "frame h h1" and y: "\<forall>y \<in> set ys. next_addr h \<le> y" by simp_all
  from frame_new_trace_obj [OF n] have f2: "frame h1 h'" and a: "new_trace = next_addr h1" by simp_all
  from n have "obj_entries (trace_at h' new_trace) = ys" by (auto simp: new_trace_obj_def)
  with y a frame_next [OF f1] frame_trans [OF f1 f2] show ?thesis by simp
qed

lemma frame_store_first_value:
  "\<forall>x \<in> set xs. next_addr h0 \<le> x \<Longrightarrow> frame h0 h \<Longrightarrow> frame h0 (store_first_value h eid v xs)"
  by (induction xs) (simp_all add: frame_set_entry)

lemma frame_create_modified_trace_in:
  "create_modified_trace_in h a eid v = (h', new_trace) \<Longrightarrow> frame h h' \<and> next_addr h \<le> new_trace"
proof -
  assume m: "create_modified_trace_in h a eid v = (h', new_trace)"
  obtain h1 na where d: "deepcopy h a = (h1, na)" by (cases "deepcopy h a")
  with m have r: "h' = store_first_value h1 eid v (obj_entries (trace_at h1 na))" "new_trace = na"
    by (auto simp: create_modified_trace_in_def)
  from frame_deepcopy [OF d] r show ?thesis by (simp add: frame_store_first_value)
qed

lemma frame_fold_set_entry:
  "\<forall>x \<in> set xs. next_addr h0 \<le> x \<Longrightarrow> frame h0 h \<Longrightarrow>
   frame h0 (fold (\<lambda>x h. set_entry h x (g h x)) xs h)"
  by (induction xs arbitrary: h) (simp_all add: frame_set_entry)

lemma frame_remove_entry_in:
  "remove_entry_in h a eid = (h', res) \<Longrightarrow> frame h h' \<and> (\<forall>new_trace. res = Some new_trace \<longrightarrow> next_addr h \<le> new_trace)"
proof -
  assume m: "remove_entry_in h a eid = (h', res)"
  obtain h1 na where d: "deepcopy h a = (h1, na)" by (cases "deepcopy h a")
  from frame_deepcopy [OF d] have f1: "frame h h1" and na: "next_addr h \<le> na"
    and ys: "\<forall>y \<in> set (obj_entries (trace_at h1 na)). next_addr h \<le> y" by simp_all
  define kept where "kept = filter (\<lambda>x. entry_id (entry_at h1 x) \<noteq> eid) (obj_entries (trace_at h1 na))"
  define h2 where "h2 = set_trace_obj h1 na ((trace_at h1 na)\<lparr>obj_entries := kept\<rparr>)"
  define h3 where "h3 = set_trace_obj h2 na ((trace_at h2 na)\<lparr>obj_variable_assignments :=
                 filter (\<lambda>(var, tid). tid \<noteq> eid) (obj_variable_assignments (trace_at h2 na))\<rparr>)"
  have f2: "frame h h2" unfolding h2_def by (rule frame_set_trace_obj [OF na f1])
  have f3: "frame h h3" unfolding h3_def by (rule frame_set_trace_obj [OF na f2])
  have "obj_entries (trace_at h3 na) = kept" by (simp add: h3_def h2_def set_trace_obj_def)
  moreover have "\<forall>x \<in> set kept. next_addr h \<le> x" using ys by (simp add: kept_def)
  ultimately have k: "\<forall>x \<in> set (obj_entries (trace_at h3 na)). next_addr h \<le> x" by simp
  have "h' = fold (\<lambda>x h. set_entry h x ((entry_at h x)\<lparr>dependencies :=
                 filter (\<lambda>dep. dep \<noteq> eid) (dependencies (entry_at h x))\<rparr>))
                 (obj_entries (trace_at h3 na)) h3" and "res = Some na"
    using m d by (simp_all add: remove_entry_in_def Let_def h3_def h2_def kept_def)
  with frame_fold_set_entry [OF k f3] na show ?thesis by simp
qed

lemma frame_individual_values_loop_in:
  "frame h (fst (individual_values_loop_in h a test_func xs))"
proof (induction xs arbitrary: h)
  case Nil
  show ?case by (simp add: frame_refl)
next
  case (Cons x xs)
  let ?e = "entry_at h x"
  let ?v = "try_shrink_value (entry_value ?e) (strategy ?e)"
  show ?case
  proof (cases "?v \<noteq> entry_value ?e")
    case False
    with Cons show ?thesis by (simp add: Let_def)
  next
    case True
    obtain h1 na where c: "create_modified_trace_in h a (entry_id ?e) ?v = (h1, na)"
      by (cases "create_modified_trace_in h a (entry_id ?e) ?v")
    from frame_create_modified_trace_in [OF c] have f: "frame h h1" by simp
    show ?thesis
    proof (cases "test_trace (read_trace h1 na) test_func")
      case t: True
      with True c f show ?thesis by (simp add: Let_def)
    next
      case t: False
      have "frame h1 (fst (individual_values_loop_in h1 a test_func xs))" by (rule Cons.IH)
      with f have "frame h (fst (individual_values_loop_in h1 a test_func xs))" by (rule frame_trans)
      with True c t show ?thesis by (simp add: Let_def)
    qed
  qed
qed

lemma frame_shrink_individual_values_in:
  "frame h (fst (shrink_individual_values_in self order h a test_func))"
  using frame_individual_values_loop_in
  by (simp add: shrink_individual_values_in_def Let_def split: prod.splits) (metis fst_conv)

lemma frame_roots_loop_in: "frame h (fst (roots_loop_in h a test_func rs))"
proof (induction rs arbitrary: h)
  case Nil
  show ?case by (simp add: frame_refl)
next
  case (Cons r rs)
  show ?case
  proof (cases "find (\<lambda>x. entry_id (entry_at h x) = r) (obj_entries (trace_at h a))")
    case None
    then show ?thesis by (simp add: frame_refl)
  next
    case (Some x)
    let ?e = "entry_at h x"
    let ?v = "try_shrink_value (entry_value ?e) (strategy ?e)"
    show ?thesis
    proof (cases "?v \<noteq> entry_value ?e")
      case False
      with Some Cons show ?thesis by (simp add: Let_def)
    next
      case True
      obtain h1 na where c: "create_modified_trace_in h a r ?v = (h1, na)"
        by (cases "create_modified_trace_in h a r ?v")
      from frame_create_modified_trace_in [OF c] have f: "frame h h1" by simp
      show ?thesis
      proof (cases "test_trace (read_trace h1 na) test_func")
        case t: True
        with Some True c f show ?thesis by (simp add: Let_def)
      next
        case t: False
        have "frame h1 (fst (roots_loop_in h1 a test_func rs))" by (rule Cons.IH)
        with f have "frame h (fst (roots_loop_in h1 a test_func rs))" by (rule frame_trans)
        with Some True c t show ?thesis by (simp add: Let_def)
      qed
    qed
  qed
qed

lemma frame_shrink_component_in:
  "frame h (fst (shrink_component_in self order h a component test_func))"
  by (simp add: shrink_component_in_def Let_def frame_refl frame_roots_loop_in)

lemma frame_chains_loop_in: "frame h (fst (chains_loop_in self order h a test_func cs))"
proof (induction cs arbitrary: h)
  case Nil
  show ?case by (simp add: frame_refl)
next
  case (Cons c cs)
  show ?case
  proof (cases "card c > 1")
    case False
    with Cons show ?thesis by simp
  next
    case True
    obtain h1 res where s: "shrink_component_in self order h a c test_func = (h1, res)"
      by (cases "shrink_component_in self order h a c test_func")
    have "frame h (fst (shrink_component_in self order h a c test_func))"
      by (rule frame_shrink_component_in)
    with s have f: "frame h h1" by simp
    show ?thesis
    proof (cases res)
      case (Inl e)
      with True s f show ?thesis by simp
    next
      case (Inr r)
      show ?thesis
      proof (cases r)
        case None
        have "frame h1 (fst (chains_loop_in self order h1 a test_func cs))" by (rule Cons.IH)
        with f have "frame h (fst (chains_loop_in self order h1 a test_func cs))" by (rule frame_trans)
        with True s Inr None show ?thesis by simp
      next
        case (Some t)
        with True s Inr f show ?thesis by simp
      qed
    qed
  qed
qed

lemma frame_optional_loop_in: "frame h (fst (optional_loop_in self h a test_func xs))"
proof (induction xs arbitrary: h)
  case Nil
  show ?case by (simp add: frame_refl)
next
  case (Cons x xs)
  let ?e = "entry_at h x"
  show ?case
  proof (cases "card (dict_get (reverse_of self) (entry_id ?e) {}) > 1 \<and> length (dependencies ?e) \<le> 1")
    case False
    have "optional_loop_in self h a test_func (x # xs) = optional_loop_in self h a test_func xs"
      unfolding optional_loop_in.simps Let_def using False by (rule if_not_P)
    with Cons show ?thesis by simp
  next
    case True
    obtain h1 res where r: "remove_entry_in h a (entry_id ?e) = (h1, res)"
      by (cases "remove_entry_in h a (entry_id ?e)")
    from frame_remove_entry_in [OF r] have f: "frame h h1" by simp
    have "frame h1 (fst (optional_loop_in self h1 a test_func xs))" by (rule Cons.IH)
    with f have g: "frame h (fst (optional_loop_in self h1 a test_func xs))" by (rule frame_trans)
    show ?thesis
    proof (cases res)
      case None
      with True r g show ?thesis by (simp add: Let_def)
    next
      case (Some na)
      with True r f g show ?thesis by (simp add: Let_def)
    qed
  qed
qed

lemma frame_shrink_failing_example_in:
  "frame h (fst (shrink_failing_example_in self order h test_func))"
proof -
  obtain h1 individual where a: "shrink_individual_values_in self order h (trace_ref self) test_func = (h1, individual)"
    by (cases "shrink_individual_values_in self order h (trace_ref self) test_func")
  have "frame h (fst (shrink_individual_values_in self order h (trace_ref self) test_func))"
    by (rule frame_shrink_individual_values_in)
  with a have f1: "frame h h1" by simp
  let ?t1 = "case individual of Some shrunk_trace \<Rightarrow> shrunk_trace | None \<Rightarrow> trace_ref self"
  obtain h2 res where b: "shrink_dependency_chains_in self order h1 ?t1 test_func = (h2, res)"
    by (cases "shrink_dependency_chains_in self order h1 ?t1 test_func")
  have "frame h1 (fst (shrink_dependency_chains_in self order h1 ?t1 test_func))"
    unfolding shrink_dependency_chains_in_def by (rule frame_chains_loop_in)
  with b have "frame h1 h2" by simp
  with f1 have f2: "frame h h2" by (rule frame_trans)
  show ?thesis
  proof (cases res)
    case (Inl e)
    with a b f2 show ?thesis by (simp add: shrink_failing_example_in_def Let_def)
  next
    case (Inr chained)
    let ?t2 = "case chained of Some shrunk_trace \<Rightarrow> shrunk_trace | None \<Rightarrow> ?t1"
    obtain h3 optional where c: "shrink_optional_dependencies_in self h2 ?t2 test_func = (h3, optional)"
      by (cases "shrink_optional_dependencies_in self h2 ?t2 test_func")
    have "frame h2 (fst (shrink_optional_dependencies_in self h2 ?t2 test_func))"
      unfolding shrink_optional_dependencies_in_def by (rule frame_optional_loop_in)
    with c have "frame h2 h3" by simp
    with f2 have "frame h h3" by (rule frame_trans)
    with a b c Inr show ?thesis
      by (simp add: shrink_failing_example_in_def Let_def)
  qed
qed

lemma frame_read_trace: "frame h h' \<Longrightarrow> allocated h a \<Longrightarrow> read_trace h' a = read_trace h a"
  by (simp add: frame_def allocated_def read_trace_def)

subsection \<open>The shrinker on the store computes what the shrinker on values computes\<close>

text \<open>A copy reads as the trace it copies, a trial as the substitution or removal made on the
  value, and the whole run returns the value and (the reference of) the trace that
  \<open>shrink_failing_example\<close> returns.\<close>

lemma allocated_frame: "frame h h' \<Longrightarrow> allocated h a \<Longrightarrow> allocated h' a"
  by (auto simp: frame_def allocated_def)

lemma frame_entry_at: "frame h h' \<Longrightarrow> x < next_addr h \<Longrightarrow> entry_at h' x = entry_at h x"
  by (simp add: frame_def)

lemma frame_map_entry_at:
  "frame h h' \<Longrightarrow> \<forall>x \<in> set xs. x < next_addr h \<Longrightarrow> map (entry_at h') xs = map (entry_at h) xs"
  by (simp add: frame_def)

lemma copy_entries_read:
  "\<forall>x \<in> set xs. x < next_addr h \<Longrightarrow> copy_entries h xs = (h', ys) \<Longrightarrow>
   map (entry_at h') ys = map (entry_at h) xs \<and> distinct ys \<and>
   (\<forall>y \<in> set ys. y < next_addr h') \<and> trace_at h' = trace_at h"
proof (induction xs arbitrary: h h' ys)
  case Nil
  then show ?case by simp
next
  case (Cons x xs)
  obtain h1 y where n: "new_entry h (entry_at h x) = (h1, y)" by (cases "new_entry h (entry_at h x)")
  obtain h2 zs where c: "copy_entries h1 xs = (h2, zs)" by (cases "copy_entries h1 xs")
  from Cons.prems(2) n c have r: "h' = h2" "ys = y # zs" by simp_all
  from frame_new_entry [OF n] have f1: "frame h h1" and y: "y = next_addr h" by simp_all
  from n have n1: "next_addr h1 = Suc (next_addr h)" and ey: "entry_at h1 y = entry_at h x"
    and t1: "trace_at h1 = trace_at h"
    by (auto simp: new_entry_def)
  from Cons.prems(1) n1 have b: "\<forall>x \<in> set xs. x < next_addr h1" by auto
  from Cons.IH [OF b c] have m: "map (entry_at h2) zs = map (entry_at h1) xs" and d: "distinct zs"
    and l: "\<forall>z \<in> set zs. z < next_addr h2" and t2: "trace_at h2 = trace_at h1" by simp_all
  from frame_copy_entries [OF c] have f2: "frame h1 h2" and g: "\<forall>z \<in> set zs. next_addr h1 \<le> z" by simp_all
  from g n1 y have ynot: "y \<notin> set zs" by auto
  have "entry_at h2 y = entry_at h1 y" using f2 y n1 by (simp add: frame_def)
  with ey have e2: "entry_at h2 y = entry_at h x" by simp
  have "map (entry_at h1) xs = map (entry_at h) xs"
    using f1 Cons.prems(1) by (simp add: frame_def)
  with m have m2: "map (entry_at h2) zs = map (entry_at h) xs" by simp
  have "y < next_addr h2" using frame_next [OF f2] n1 y by simp
  with r e2 m2 d ynot l t1 t2 show ?case by simp
qed

lemma deepcopy_read:
  assumes a: "allocated h a" and d: "deepcopy h a = (h', new_trace)"
  shows "read_trace h' new_trace = read_trace h a \<and> allocated h' new_trace \<and>
         distinct (obj_entries (trace_at h' new_trace))"
proof -
  obtain h1 ys where c: "copy_entries h (obj_entries (trace_at h a)) = (h1, ys)"
    by (cases "copy_entries h (obj_entries (trace_at h a))")
  with d have n: "new_trace_obj h1 ((trace_at h a)\<lparr>obj_entries := ys\<rparr>) = (h', new_trace)"
    by (simp add: deepcopy_def)
  from a have b: "\<forall>x \<in> set (obj_entries (trace_at h a)). x < next_addr h" by (simp add: allocated_def)
  from copy_entries_read [OF b c] have m: "map (entry_at h1) ys = map (entry_at h) (obj_entries (trace_at h a))"
    and dist: "distinct ys" and l: "\<forall>y \<in> set ys. y < next_addr h1" by simp_all
  from n have t: "trace_at h' new_trace = (trace_at h a)\<lparr>obj_entries := ys\<rparr>"
    and e: "entry_at h' = entry_at h1" and nx: "next_addr h' = Suc (next_addr h1)"
    and na: "new_trace = next_addr h1"
    by (auto simp: new_trace_obj_def)
  from t e m have "read_trace h' new_trace = read_trace h a" by (simp add: read_trace_def)
  moreover from t l nx na have "allocated h' new_trace" by (auto simp: allocated_def)
  ultimately show ?thesis using t dist by simp
qed

lemma store_first_value_other:
  "x \<notin> set xs \<Longrightarrow> entry_at (store_first_value h eid v xs) x = entry_at h x"
  by (induction xs) (auto simp: set_entry_def)

lemma store_first_value_same:
  "trace_at (store_first_value h eid v xs) = trace_at h \<and> next_addr (store_first_value h eid v xs) = next_addr h"
  by (induction xs) (auto simp: set_entry_def)

lemma store_first_value_read:
  "distinct xs \<Longrightarrow>
   map (entry_at (store_first_value h eid v xs)) xs = set_first_value eid v (map (entry_at h) xs)"
proof (induction xs)
  case Nil
  then show ?case by simp
next
  case (Cons x xs)
  show ?case
  proof (cases "entry_id (entry_at h x) = eid")
    case True
    have "map (entry_at (set_entry h x ((entry_at h x)\<lparr>entry_value := v\<rparr>))) xs = map (entry_at h) xs"
      using Cons.prems by (auto simp: set_entry_def)
    with True show ?thesis by (simp add: set_entry_def)
  next
    case False
    have "entry_at (store_first_value h eid v xs) x = entry_at h x"
      using Cons.prems by (simp add: store_first_value_other)
    with False Cons show ?thesis by simp
  qed
qed

lemma create_modified_trace_read:
  assumes a: "allocated h a" and m: "create_modified_trace_in h a eid v = (h', new_trace)"
  shows "read_trace h' new_trace = create_modified_trace (read_trace h a) eid v \<and> allocated h' new_trace"
proof -
  obtain h1 na where d: "deepcopy h a = (h1, na)" by (cases "deepcopy h a")
  with m have r: "h' = store_first_value h1 eid v (obj_entries (trace_at h1 na))" "new_trace = na"
    by (auto simp: create_modified_trace_in_def)
  from deepcopy_read [OF a d] have rd: "read_trace h1 na = read_trace h a" and al: "allocated h1 na"
    and dist: "distinct (obj_entries (trace_at h1 na))" by simp_all
  have same: "trace_at h' = trace_at h1" "next_addr h' = next_addr h1"
    using store_first_value_same [of h1 eid v "obj_entries (trace_at h1 na)"] r by simp_all
  have "map (entry_at h') (obj_entries (trace_at h1 na)) =
        set_first_value eid v (map (entry_at h1) (obj_entries (trace_at h1 na)))"
    unfolding r by (rule store_first_value_read [OF dist])
  then have "read_trace h' na = create_modified_trace (read_trace h1 na) eid v"
    by (simp add: read_trace_def create_modified_trace_def same)
  moreover have "allocated h' na" using al same by (simp add: allocated_def)
  ultimately show ?thesis using r rd by simp
qed

lemma find_map_option: "find P (map f xs) = map_option f (find (\<lambda>x. P (f x)) xs)"
  by (induction xs) auto

lemma insort_key_map: "map f (insort_key (\<lambda>x. k (f x)) x ys) = insort_key k (f x) (map f ys)"
  by (induction ys) auto

lemma sort_key_map: "map f (sort_key (\<lambda>x. k (f x)) xs) = sort_key k (map f xs)"
  by (induction xs) (simp_all add: sort_key_def insort_key_map)

lemma strip_fold_other:
  "x \<notin> set xs \<Longrightarrow>
   entry_at (fold (\<lambda>x h. set_entry h x ((entry_at h x)\<lparr>dependencies :=
      filter (\<lambda>dep. dep \<noteq> eid) (dependencies (entry_at h x))\<rparr>)) xs h) x = entry_at h x"
  by (induction xs arbitrary: h) (auto simp: set_entry_def)

lemma strip_fold_same:
  "trace_at (fold (\<lambda>x h. set_entry h x ((entry_at h x)\<lparr>dependencies :=
      filter (\<lambda>dep. dep \<noteq> eid) (dependencies (entry_at h x))\<rparr>)) xs h) = trace_at h \<and>
   next_addr (fold (\<lambda>x h. set_entry h x ((entry_at h x)\<lparr>dependencies :=
      filter (\<lambda>dep. dep \<noteq> eid) (dependencies (entry_at h x))\<rparr>)) xs h) = next_addr h"
  by (induction xs arbitrary: h) (auto simp: set_entry_def)

lemma strip_fold_read:
  "distinct xs \<Longrightarrow>
   map (entry_at (fold (\<lambda>x h. set_entry h x ((entry_at h x)\<lparr>dependencies :=
      filter (\<lambda>dep. dep \<noteq> eid) (dependencies (entry_at h x))\<rparr>)) xs h)) xs =
   map (\<lambda>entry. entry\<lparr>dependencies := filter (\<lambda>dep. dep \<noteq> eid) (dependencies entry)\<rparr>) (map (entry_at h) xs)"
proof (induction xs arbitrary: h)
  case Nil
  then show ?case by simp
next
  case (Cons x xs)
  let ?h1 = "set_entry h x ((entry_at h x)\<lparr>dependencies := filter (\<lambda>dep. dep \<noteq> eid) (dependencies (entry_at h x))\<rparr>)"
  have o: "map (entry_at ?h1) xs = map (entry_at h) xs" using Cons.prems by (auto simp: set_entry_def)
  have s: "entry_at ?h1 x = (entry_at h x)\<lparr>dependencies := filter (\<lambda>dep. dep \<noteq> eid) (dependencies (entry_at h x))\<rparr>"
    by (simp add: set_entry_def)
  from Cons.prems have d: "distinct xs" and n: "x \<notin> set xs" by simp_all
  show ?case
    using Cons.IH [OF d, of ?h1] strip_fold_other [OF n, of eid ?h1] o s by simp
qed

lemma remove_entry_read:
  assumes a: "allocated h a" and m: "remove_entry_in h a eid = (h', res)"
  shows "\<exists>new_trace. res = Some new_trace \<and>
           remove_entry (read_trace h a) eid = Some (read_trace h' new_trace) \<and> allocated h' new_trace"
proof -
  obtain h1 na where d: "deepcopy h a = (h1, na)" by (cases "deepcopy h a")
  from deepcopy_read [OF a d] have rd: "read_trace h1 na = read_trace h a" and al: "allocated h1 na"
    and dist: "distinct (obj_entries (trace_at h1 na))" by simp_all
  define kept where "kept = filter (\<lambda>x. entry_id (entry_at h1 x) \<noteq> eid) (obj_entries (trace_at h1 na))"
  define h2 where "h2 = set_trace_obj h1 na ((trace_at h1 na)\<lparr>obj_entries := kept\<rparr>)"
  define h3 where "h3 = set_trace_obj h2 na ((trace_at h2 na)\<lparr>obj_variable_assignments :=
                 filter (\<lambda>(var, tid). tid \<noteq> eid) (obj_variable_assignments (trace_at h2 na))\<rparr>)"
  have t3: "trace_at h3 na = \<lparr>obj_entries = kept,
      obj_variable_assignments = filter (\<lambda>(var, tid). tid \<noteq> eid) (obj_variable_assignments (trace_at h1 na)),
      obj_next_id = obj_next_id (trace_at h1 na)\<rparr>"
    by (simp add: h3_def h2_def set_trace_obj_def)
  have e3: "entry_at h3 = entry_at h1" and n3: "next_addr h3 = next_addr h1"
    by (simp_all add: h3_def h2_def set_trace_obj_def)
  have r: "h' = fold (\<lambda>x h. set_entry h x ((entry_at h x)\<lparr>dependencies :=
                 filter (\<lambda>dep. dep \<noteq> eid) (dependencies (entry_at h x))\<rparr>))
                 (obj_entries (trace_at h3 na)) h3" and res: "res = Some na"
    using m d by (simp_all add: remove_entry_in_def Let_def h3_def h2_def kept_def)
  have k: "obj_entries (trace_at h3 na) = kept" by (simp add: t3)
  have dk: "distinct kept" using dist by (simp add: kept_def)
  have same: "trace_at h' = trace_at h3" "next_addr h' = next_addr h3"
    using strip_fold_same [of eid "obj_entries (trace_at h3 na)" h3] r by simp_all
  have ents: "map (entry_at h') kept =
     map (\<lambda>entry. entry\<lparr>dependencies := filter (\<lambda>dep. dep \<noteq> eid) (dependencies entry)\<rparr>) (map (entry_at h1) kept)"
    using strip_fold_read [OF dk, of eid h3] r k e3 by simp
  have kp: "map (entry_at h1) kept = filter (\<lambda>e. entry_id e \<noteq> eid) (map (entry_at h1) (obj_entries (trace_at h1 na)))"
    by (simp add: kept_def filter_map comp_def)
  have "remove_entry (read_trace h1 na) eid = Some (read_trace h' na)"
    by (simp add: remove_entry_def Let_def read_trace_def same t3 ents kp)
  moreover have "allocated h' na"
    using al by (auto simp: allocated_def same t3 n3 kept_def)
  ultimately show ?thesis using res rd by simp
qed

lemma individual_values_loop_read:
  "allocated h a \<Longrightarrow> \<forall>x \<in> set xs. x < next_addr h \<Longrightarrow>
   individual_values_loop_in h a test_func xs = (h', a') \<Longrightarrow>
   read_trace h' a' = individual_values_loop (read_trace h a) test_func (map (entry_at h) xs) \<and>
   allocated h' a'"
proof (induction xs arbitrary: h)
  case Nil
  then show ?case by simp
next
  case (Cons x xs)
  let ?e = "entry_at h x"
  let ?v = "try_shrink_value (entry_value ?e) (strategy ?e)"
  from Cons.prems(2) have xs: "\<forall>x \<in> set xs. x < next_addr h" by simp
  show ?case
  proof (cases "?v \<noteq> entry_value ?e")
    case False
    with Cons.prems(3) have "individual_values_loop_in h a test_func xs = (h', a')" by (simp add: Let_def)
    from Cons.IH [OF Cons.prems(1) xs this] False show ?thesis by (simp add: Let_def)
  next
    case True
    obtain h1 na where c: "create_modified_trace_in h a (entry_id ?e) ?v = (h1, na)"
      by (cases "create_modified_trace_in h a (entry_id ?e) ?v")
    from create_modified_trace_read [OF Cons.prems(1) c]
    have rd: "read_trace h1 na = create_modified_trace (read_trace h a) (entry_id ?e) ?v"
      and al: "allocated h1 na" by simp_all
    from frame_create_modified_trace_in [OF c] have f: "frame h h1" by simp
    show ?thesis
    proof (cases "test_trace (read_trace h1 na) test_func")
      case t: True
      with True c Cons.prems(3) have "h' = h1" "a' = na" by (simp_all add: Let_def)
      with True t rd al show ?thesis by (simp add: Let_def)
    next
      case t: False
      with True c Cons.prems(3) have l: "individual_values_loop_in h1 a test_func xs = (h', a')"
        by (simp add: Let_def)
      have a1: "allocated h1 a" by (rule allocated_frame [OF f Cons.prems(1)])
      have x1: "\<forall>x \<in> set xs. x < next_addr h1" using xs frame_next [OF f] by auto
      have r1: "read_trace h1 a = read_trace h a" by (rule frame_read_trace [OF f Cons.prems(1)])
      have m1: "map (entry_at h1) xs = map (entry_at h) xs" by (rule frame_map_entry_at [OF f xs])
      from Cons.IH [OF a1 x1 l] r1 m1 True t rd show ?thesis by (simp add: Let_def)
    qed
  qed
qed

lemma shrink_individual_values_read:
  assumes a: "allocated h a" and g: "graph_of self = dependency_graph pself"
    and s: "shrink_individual_values_in self order h a test_func = (h', res)"
  shows "map_option (read_trace h') res = shrink_individual_values pself order (read_trace h a) test_func \<and>
         (\<forall>a'. res = Some a' \<longrightarrow> allocated h' a')"
proof -
  let ?k = "\<lambda>e. fst (get_depth (dependency_graph pself) order (entry_id e) {})"
  let ?sorted = "sort_key (\<lambda>x. ?k (entry_at h x)) (obj_entries (trace_at h a))"
  obtain h1 sa where l: "individual_values_loop_in h a test_func ?sorted = (h1, sa)"
    by (cases "individual_values_loop_in h a test_func ?sorted")
  from s l g have r: "h' = h1"
    "res = (if read_trace h1 sa \<noteq> read_trace h1 a then Some sa else None)"
    by (auto simp: shrink_individual_values_in_def Let_def)
  have b: "\<forall>x \<in> set ?sorted. x < next_addr h" using a by (simp add: allocated_def)
  have m: "map (entry_at h) ?sorted = sort_by_dependency_depth pself order (entries (read_trace h a))"
    using sort_key_map [where f = "entry_at h" and k = ?k and xs = "obj_entries (trace_at h a)"]
    by (simp add: sort_by_dependency_depth_def read_trace_def)
  from individual_values_loop_read [OF a b l] m
  have rd: "read_trace h1 sa = individual_values_loop (read_trace h a) test_func
              (sort_by_dependency_depth pself order (entries (read_trace h a)))"
    and al: "allocated h1 sa" by simp_all
  have "frame h (fst (individual_values_loop_in h a test_func ?sorted))"
    by (rule frame_individual_values_loop_in)
  with l have "frame h h1" by simp
  then have same: "read_trace h1 a = read_trace h a" using a by (rule frame_read_trace)
  from r rd al same show ?thesis by (simp add: shrink_individual_values_def Let_def)
qed

lemma roots_loop_read:
  "allocated h a \<Longrightarrow> roots_loop_in h a test_func rs = (h', res) \<Longrightarrow>
   map_sum id (map_option (read_trace h')) res = roots_loop (read_trace h a) test_func rs \<and>
   (\<forall>a'. res = Inr (Some a') \<longrightarrow> allocated h' a')"
proof (induction rs arbitrary: h)
  case Nil
  then show ?case by auto
next
  case (Cons r rs)
  let ?found = "find (\<lambda>x. entry_id (entry_at h x) = r) (obj_entries (trace_at h a))"
  have fe: "find_entry (read_trace h a) r = map_option (entry_at h) ?found"
    by (simp add: find_entry_def read_trace_def find_map_option)
  show ?case
  proof (cases ?found)
    case None
    with Cons.prems(2) fe show ?thesis by auto
  next
    case (Some x)
    let ?e = "entry_at h x"
    let ?v = "try_shrink_value (entry_value ?e) (strategy ?e)"
    from Some fe have fe': "find_entry (read_trace h a) r = Some ?e" by simp
    show ?thesis
    proof (cases "?v \<noteq> entry_value ?e")
      case False
      with Some Cons.prems(2) have "roots_loop_in h a test_func rs = (h', res)" by (simp add: Let_def)
      from Cons.IH [OF Cons.prems(1) this] False fe' show ?thesis by (simp add: Let_def)
    next
      case True
      obtain h1 na where c: "create_modified_trace_in h a r ?v = (h1, na)"
        by (cases "create_modified_trace_in h a r ?v")
      from create_modified_trace_read [OF Cons.prems(1) c]
      have rd: "read_trace h1 na = create_modified_trace (read_trace h a) r ?v"
        and al: "allocated h1 na" by simp_all
      from frame_create_modified_trace_in [OF c] have f: "frame h h1" by simp
      show ?thesis
      proof (cases "test_trace (read_trace h1 na) test_func")
        case t: True
        with Some True c Cons.prems(2) have "h' = h1" "res = Inr (Some na)" by (simp_all add: Let_def)
        with True t rd al fe' show ?thesis by (simp add: Let_def)
      next
        case t: False
        with Some True c Cons.prems(2) have l: "roots_loop_in h1 a test_func rs = (h', res)"
          by (simp add: Let_def)
        have a1: "allocated h1 a" by (rule allocated_frame [OF f Cons.prems(1)])
        have r1: "read_trace h1 a = read_trace h a" by (rule frame_read_trace [OF f Cons.prems(1)])
        from Cons.IH [OF a1 l] r1 True t rd fe' show ?thesis by (simp add: Let_def)
      qed
    qed
  qed
qed

lemma shrink_component_read:
  assumes a: "allocated h a" and g: "graph_of self = dependency_graph pself"
    and s: "shrink_component_in self order h a component test_func = (h', res)"
  shows "map_sum id (map_option (read_trace h')) res =
           shrink_component pself order (read_trace h a) component test_func \<and>
         (\<forall>a'. res = Inr (Some a') \<longrightarrow> allocated h' a')"
proof -
  let ?roots = "filter (\<lambda>tid. dict_get (dependency_graph pself) tid {} = {}) (order component)"
  show ?thesis
  proof (cases "?roots = []")
    case True
    with s g have "h' = h" "res = Inr None" by (simp_all add: shrink_component_in_def Let_def)
    with True show ?thesis by (simp add: shrink_component_def Let_def)
  next
    case False
    with s g have "roots_loop_in h a test_func ?roots = (h', res)"
      by (simp add: shrink_component_in_def Let_def)
    from roots_loop_read [OF a this] False show ?thesis by (simp add: shrink_component_def Let_def)
  qed
qed

lemma chains_loop_read:
  assumes g: "graph_of self = dependency_graph pself"
  shows "allocated h a \<Longrightarrow> chains_loop_in self order h a test_func cs = (h', res) \<Longrightarrow>
   map_sum id (map_option (read_trace h')) res = chains_loop pself order (read_trace h a) test_func cs \<and>
   (\<forall>a'. res = Inr (Some a') \<longrightarrow> allocated h' a')"
proof (induction cs arbitrary: h)
  case Nil
  then show ?case by auto
next
  case (Cons c cs)
  show ?case
  proof (cases "card c > 1")
    case False
    with Cons.prems(2) have "chains_loop_in self order h a test_func cs = (h', res)" by simp
    from Cons.IH [OF Cons.prems(1) this] False show ?thesis by simp
  next
    case True
    obtain h1 r1 where s: "shrink_component_in self order h a c test_func = (h1, r1)"
      by (cases "shrink_component_in self order h a c test_func")
    from shrink_component_read [OF Cons.prems(1) g s]
    have rd: "map_sum id (map_option (read_trace h1)) r1 = shrink_component pself order (read_trace h a) c test_func"
      and al: "\<forall>a'. r1 = Inr (Some a') \<longrightarrow> allocated h1 a'" by simp_all
    have "frame h (fst (shrink_component_in self order h a c test_func))"
      by (rule frame_shrink_component_in)
    with s have f: "frame h h1" by simp
    show ?thesis
    proof (cases r1)
      case (Inl e)
      with True s Cons.prems(2) have "h' = h1" "res = Inl e" by simp_all
      with True rd [symmetric] Inl show ?thesis by simp
    next
      case (Inr o1)
      show ?thesis
      proof (cases o1)
        case None
        with True s Inr Cons.prems(2) have l: "chains_loop_in self order h1 a test_func cs = (h', res)"
          by simp
        have a1: "allocated h1 a" by (rule allocated_frame [OF f Cons.prems(1)])
        have r: "read_trace h1 a = read_trace h a" by (rule frame_read_trace [OF f Cons.prems(1)])
        from Cons.IH [OF a1 l] r True rd [symmetric] Inr None show ?thesis by simp
      next
        case (Some t)
        with True s Inr Cons.prems(2) have "h' = h1" "res = Inr (Some t)" by simp_all
        with True rd [symmetric] al Inr Some show ?thesis by simp
      qed
    qed
  qed
qed

lemma optional_loop_read:
  assumes g: "reverse_of self = reverse_dependencies pself"
  shows "allocated h a \<Longrightarrow> \<forall>x \<in> set xs. x < next_addr h \<Longrightarrow>
   optional_loop_in self h a test_func xs = (h', res) \<Longrightarrow>
   map_option (read_trace h') res = optional_loop pself (read_trace h a) test_func (map (entry_at h) xs) \<and>
   (\<forall>a'. res = Some a' \<longrightarrow> allocated h' a')"
proof (induction xs arbitrary: h)
  case Nil
  then show ?case by auto
next
  case (Cons x xs)
  let ?e = "entry_at h x"
  let ?c = "card (dict_get (reverse_dependencies pself) (entry_id ?e) {}) > 1 \<and> length (dependencies ?e) \<le> 1"
  from Cons.prems(2) have xs: "\<forall>x \<in> set xs. x < next_addr h" by simp
  show ?case
  proof (cases ?c)
    case False
    have "optional_loop_in self h a test_func (x # xs) = optional_loop_in self h a test_func xs"
      unfolding optional_loop_in.simps Let_def g using False by (rule if_not_P)
    with Cons.prems(3) have l: "optional_loop_in self h a test_func xs = (h', res)" by simp
    have "optional_loop pself (read_trace h a) test_func (map (entry_at h) (x # xs)) =
          optional_loop pself (read_trace h a) test_func (map (entry_at h) xs)"
      unfolding list.map optional_loop.simps Let_def using False by (rule if_not_P)
    with Cons.IH [OF Cons.prems(1) xs l] show ?thesis by simp
  next
    case True
    obtain h1 r1 where r: "remove_entry_in h a (entry_id ?e) = (h1, r1)"
      by (cases "remove_entry_in h a (entry_id ?e)")
    from remove_entry_read [OF Cons.prems(1) r] obtain na where na: "r1 = Some na"
      and rd: "remove_entry (read_trace h a) (entry_id ?e) = Some (read_trace h1 na)"
      and al: "allocated h1 na" by blast
    from frame_remove_entry_in [OF r] have f: "frame h h1" by simp
    have unf: "optional_loop_in self h a test_func (x # xs) =
        (if test_trace (read_trace h1 na) test_func then (h1, Some na)
         else optional_loop_in self h1 a test_func xs)"
      using True r na by (simp add: Let_def g)
    have punf: "optional_loop pself (read_trace h a) test_func (map (entry_at h) (x # xs)) =
        (if test_trace (read_trace h1 na) test_func then Some (read_trace h1 na)
         else optional_loop pself (read_trace h a) test_func (map (entry_at h) xs))"
      using True rd by (simp add: Let_def)
    show ?thesis
    proof (cases "test_trace (read_trace h1 na) test_func")
      case t: True
      with unf Cons.prems(3) have "h' = h1" "res = Some na" by simp_all
      with t punf al show ?thesis by simp
    next
      case t: False
      with unf Cons.prems(3) have l: "optional_loop_in self h1 a test_func xs = (h', res)" by simp
      have a1: "allocated h1 a" by (rule allocated_frame [OF f Cons.prems(1)])
      have x1: "\<forall>x \<in> set xs. x < next_addr h1" using xs frame_next [OF f] by auto
      have r1: "read_trace h1 a = read_trace h a" by (rule frame_read_trace [OF f Cons.prems(1)])
      have m1: "map (entry_at h1) xs = map (entry_at h) xs" by (rule frame_map_entry_at [OF f xs])
      from Cons.IH [OF a1 x1 l] r1 m1 t punf show ?thesis by simp
    qed
  qed
qed

lemma shrink_failing_example_read:
  assumes a: "allocated h a"
    and s: "shrink_failing_example_in (new_shrinker h a) order h test_func = (h', res)"
  shows "map_sum id (\<lambda>(v, a'). (v, read_trace h' a')) res =
           shrink_failing_example (make_shrinker (read_trace h a)) order test_func"
proof -
  let ?self = "new_shrinker h a"
  let ?pself = "make_shrinker (read_trace h a)"
  have g: "graph_of ?self = dependency_graph ?pself" by (simp add: new_shrinker_def make_shrinker_def)
  have rv: "reverse_of ?self = reverse_dependencies ?pself" by (simp add: new_shrinker_def make_shrinker_def)
  have tr: "trace_ref ?self = a" by (simp add: new_shrinker_def)
  have st: "sh_trace ?pself = read_trace h a" by (simp add: make_shrinker_def)
  obtain h1 ind where A: "shrink_individual_values_in ?self order h a test_func = (h1, ind)"
    by (cases "shrink_individual_values_in ?self order h a test_func")
  from shrink_individual_values_read [OF a g A]
  have pA: "shrink_individual_values ?pself order (read_trace h a) test_func = map_option (read_trace h1) ind"
    and alA: "\<forall>a'. ind = Some a' \<longrightarrow> allocated h1 a'" by simp_all
  have "frame h (fst (shrink_individual_values_in ?self order h a test_func))"
    by (rule frame_shrink_individual_values_in)
  with A have f1: "frame h h1" by simp
  let ?t1 = "case ind of Some shrunk_trace \<Rightarrow> shrunk_trace | None \<Rightarrow> a"
  let ?p1 = "case shrink_individual_values ?pself order (read_trace h a) test_func of
               Some shrunk_trace \<Rightarrow> shrunk_trace | None \<Rightarrow> read_trace h a"
  have al1: "allocated h1 ?t1"
    using alA allocated_frame [OF f1 a] by (cases ind) simp_all
  have r1: "read_trace h1 ?t1 = ?p1"
    using frame_read_trace [OF f1 a] by (cases ind) (simp_all add: pA)
  obtain h2 r2 where B: "shrink_dependency_chains_in ?self order h1 ?t1 test_func = (h2, r2)"
    by (cases "shrink_dependency_chains_in ?self order h1 ?t1 test_func")
  then have "chains_loop_in ?self order h1 ?t1 test_func (get_connected_components order (read_trace h1 ?t1)) = (h2, r2)"
    by (simp add: shrink_dependency_chains_in_def)
  from chains_loop_read [OF g al1 this]
  have pB: "shrink_dependency_chains ?pself order ?p1 test_func = map_sum id (map_option (read_trace h2)) r2"
    and alB: "\<forall>a'. r2 = Inr (Some a') \<longrightarrow> allocated h2 a'"
    by (simp_all add: shrink_dependency_chains_def r1)
  have "frame h1 (fst (shrink_dependency_chains_in ?self order h1 ?t1 test_func))"
    unfolding shrink_dependency_chains_in_def by (rule frame_chains_loop_in)
  with B have f2: "frame h1 h2" by simp
  show ?thesis
  proof (cases r2)
    case (Inl e)
    with s A B tr have "res = Inl e" by (simp add: shrink_failing_example_in_def Let_def)
    moreover have "shrink_failing_example ?pself order test_func = Inl e"
      unfolding shrink_failing_example_def Let_def st using pB Inl by simp
    ultimately show ?thesis by simp
  next
    case (Inr chained)
    let ?t2 = "case chained of Some shrunk_trace \<Rightarrow> shrunk_trace | None \<Rightarrow> ?t1"
    let ?pc = "map_option (read_trace h2) chained"
    let ?p2 = "case ?pc of Some shrunk_trace \<Rightarrow> shrunk_trace | None \<Rightarrow> ?p1"
    have al2: "allocated h2 ?t2"
      using alB Inr allocated_frame [OF f2 al1] by (cases chained) simp_all
    have r2': "read_trace h2 ?t2 = ?p2"
      using frame_read_trace [OF f2 al1] r1 by (cases chained) simp_all
    obtain h3 opt where C: "shrink_optional_dependencies_in ?self h2 ?t2 test_func = (h3, opt)"
      by (cases "shrink_optional_dependencies_in ?self h2 ?t2 test_func")
    then have C': "optional_loop_in ?self h2 ?t2 test_func (obj_entries (trace_at h2 ?t2)) = (h3, opt)"
      by (simp add: shrink_optional_dependencies_in_def)
    have b: "\<forall>x \<in> set (obj_entries (trace_at h2 ?t2)). x < next_addr h2"
      using al2 by (simp add: allocated_def)
    have ents: "map (entry_at h2) (obj_entries (trace_at h2 ?t2)) = entries (read_trace h2 ?t2)"
      by (simp add: read_trace_def)
    from optional_loop_read [OF rv al2 b C']
    have pC: "shrink_optional_dependencies ?pself ?p2 test_func = map_option (read_trace h3) opt"
      unfolding shrink_optional_dependencies_def ents r2' by simp
    have "frame h2 (fst (shrink_optional_dependencies_in ?self h2 ?t2 test_func))"
      unfolding shrink_optional_dependencies_in_def by (rule frame_optional_loop_in)
    with C have f3: "frame h2 h3" by simp
    let ?t3 = "case opt of Some shrunk_trace \<Rightarrow> shrunk_trace | None \<Rightarrow> ?t2"
    let ?p3 = "case map_option (read_trace h3) opt of Some shrunk_trace \<Rightarrow> shrunk_trace | None \<Rightarrow> ?p2"
    have r3: "read_trace h3 ?t3 = ?p3"
      using frame_read_trace [OF f3 al2] r2' by (cases opt) simp_all
    from s A B C tr Inr have res: "h' = h3" "res = Inr (reconstruct_value (read_trace h3 ?t3), ?t3)"
      by (auto simp: shrink_failing_example_in_def Let_def)
    have "shrink_failing_example ?pself order test_func = Inr (reconstruct_value ?p3, ?p3)"
      unfolding shrink_failing_example_def Let_def st using pB Inr pC by simp
    with res r3 show ?thesis by simp
  qed
qed

text \<open>
  C8. \<^verbatim>\<open>shrink_failing_example\<close> leaves every object of the store it starts from as it was:
  the input trace, read back after the call, has the entries (with their values and
  dependencies) and the variable assignments it had before. Each trial, a value substitution
  (\<^verbatim>\<open>_create_modified_trace\<close>) or an entry removal (\<^verbatim>\<open>_remove_entry\<close>), writes only to the
  objects of its own copy, whose reference is new, and leaves the trace it copied unchanged; the
  copy of a value substitution reads as the input trace with that one value replaced.
\<close>

theorem shrinking_leaves_input_unchanged:
  "frame h (fst (shrink_failing_example_in self order h test_func)) \<and>
   (allocated h a \<longrightarrow>
      read_trace (fst (shrink_failing_example_in self order h test_func)) a = read_trace h a) \<and>
   frame h (fst (create_modified_trace_in h a eid v)) \<and>
   next_addr h \<le> snd (create_modified_trace_in h a eid v) \<and>
   (allocated h a \<longrightarrow> read_trace (fst (create_modified_trace_in h a eid v)) a = read_trace h a) \<and>
   frame h (fst (remove_entry_in h a eid)) \<and>
   (\<forall>new_trace. snd (remove_entry_in h a eid) = Some new_trace \<longrightarrow> next_addr h \<le> new_trace) \<and>
   (allocated h a \<longrightarrow> read_trace (fst (remove_entry_in h a eid)) a = read_trace h a) \<and>
   (allocated h a \<longrightarrow>
      read_trace (fst (create_modified_trace_in h a eid v)) (snd (create_modified_trace_in h a eid v))
        = create_modified_trace (read_trace h a) eid v)"
proof -
  have 1: "frame h (fst (shrink_failing_example_in self order h test_func))"
    by (rule frame_shrink_failing_example_in)
  have 2: "frame h (fst (create_modified_trace_in h a eid v)) \<and>
           next_addr h \<le> snd (create_modified_trace_in h a eid v)"
    using frame_create_modified_trace_in [of h a eid v] by (cases "create_modified_trace_in h a eid v") simp
  have 3: "frame h (fst (remove_entry_in h a eid)) \<and>
           (\<forall>new_trace. snd (remove_entry_in h a eid) = Some new_trace \<longrightarrow> next_addr h \<le> new_trace)"
    using frame_remove_entry_in [of h a eid] by (cases "remove_entry_in h a eid") simp
  have 4: "allocated h a \<longrightarrow>
      read_trace (fst (create_modified_trace_in h a eid v)) (snd (create_modified_trace_in h a eid v))
        = create_modified_trace (read_trace h a) eid v"
    using create_modified_trace_read [of h a eid v] by (cases "create_modified_trace_in h a eid v") simp
  from 1 2 3 4 show ?thesis by (simp add: frame_read_trace)
qed

lemma nested_allocated: "allocated nested_heap nested_ref"
  by code_simp

lemma nested_read: "read_trace nested_heap nested_ref = trace (run_ops nested_draws)"
  by code_simp


theorem shrinking_leaves_input_unchanged_witness:
  "allocated nested_heap nested_ref \<and>
   read_trace (fst (shrink_failing_example_in (new_shrinker nested_heap nested_ref)
      sorted_list_of_set nested_heap fails_when_large)) nested_ref = trace (run_ops nested_draws) \<and>
   read_trace (fst (create_modified_trace_in nested_heap nested_ref ''t0'' (VInt 40))) nested_ref
     = trace (run_ops nested_draws) \<and>
   read_trace (fst (remove_entry_in nested_heap nested_ref ''t0'')) nested_ref = trace (run_ops nested_draws)"
  using shrinking_leaves_input_unchanged [of nested_heap "new_shrinker nested_heap nested_ref"
      sorted_list_of_set fails_when_large nested_ref "''t0''" "VInt 40"]
    nested_allocated nested_read
  by simp

end
